theory Spec2Isabelle
  imports
    Complex_Main
    "HOL-Library.Char_ord"
    "HOL-Library.List_Lexorder"
    "HOL-Library.Multiset"
    "HOL-Library.Signed_Division"
begin

section \<open>The sorted string array of package garray\<close>

text \<open>
  The development embeds \<^verbatim>\<open>g/container/garray/garray_sorted_string.go\<close>.
  A Go \<^verbatim>\<open>string\<close> is a sequence of bytes and is modelled by \<^typ>\<open>string\<close>, whose
  characters are bytes; the order on strings is the lexicographic order on the unsigned
  byte values, which is the order of Go's comparison operators on strings.
  A Go \<^verbatim>\<open>int\<close> is modelled by \<^typ>\<open>int\<close>. The indices the methods compute are bounded
  by the length of the array or by the argument \<^verbatim>\<open>size\<close>, so they stay inside the range of
  the machine integer; the one sum of two arguments, in \<^verbatim>\<open>SubSlice\<close>, is wrapped to
  64 bits explicitly.
  A run-time panic is a value of type \<open>panic\<close>, and a method that can panic returns a sum.
  The methods are modelled for one thread of control: a lock is taken and released inside
  each method and has no effect on the value returned. Only \<^verbatim>\<open>Merge\<close>, whose locking
  depends on the identity of its argument, is modelled a second time with the locks.
  The methods are first modelled on values, the array being the sequence of its elements.
  The constructor from a slice, \<^verbatim>\<open>SetArray\<close>, \<^verbatim>\<open>Clone\<close>, \<^verbatim>\<open>Clear\<close>, \<^verbatim>\<open>Add\<close> and
  \<^verbatim>\<open>Remove\<close> are then modelled again on an explicit memory, where slices can share
  storage, and shown to compute the same values.
\<close>

subsection \<open>Panics, slices and the comparison function\<close>

datatype panic =
    IndexOutOfRange
  | SliceBoundsOutOfRange
  | MakeSliceLenOutOfRange
  | MakeSliceCapOutOfRange
  | PanicMsg string
  | Deadlock

text \<open>\<^verbatim>\<open>s[i]\<close>: the index expression panics outside \<open>0 \<le> i < len(s)\<close>.\<close>

definition index_at :: "'a list \<Rightarrow> int \<Rightarrow> panic + 'a" where
  "index_at s i =
     (if 0 \<le> i \<and> i < int (length s) then Inr (s ! nat i) else Inl IndexOutOfRange)"

text \<open>
  \<^verbatim>\<open>s[lo:hi]\<close>: the slice expression. The bound of \<open>hi\<close> is the length here, not the
  capacity: the elements between length and capacity are not part of the sequence, and
  every slice expression of the source has \<open>hi \<le> len(s)\<close> when it is reached.
\<close>

definition slice_of :: "'a list \<Rightarrow> int \<Rightarrow> int \<Rightarrow> panic + 'a list" where
  "slice_of s lo hi =
     (if 0 \<le> lo \<and> lo \<le> hi \<and> hi \<le> int (length s)
      then Inr (take (nat (hi - lo)) (drop (nat lo) s))
      else Inl SliceBoundsOutOfRange)"

text \<open>\<^verbatim>\<open>make([]string, n)\<close>: \<open>n\<close> empty strings; panics when \<open>n\<close> is negative.\<close>

definition make_strings :: "int \<Rightarrow> panic + string list" where
  "make_strings n = (if n < 0 then Inl MakeSliceLenOutOfRange else Inr (replicate (nat n) []))"

text \<open>\<^verbatim>\<open>copy(dst, src)\<close>: overwrites the first \<open>min(len(dst), len(src))\<close> elements of \<open>dst\<close>.\<close>

definition copy_into :: "'a list \<Rightarrow> 'a list \<Rightarrow> 'a list" where
  "copy_into dst src = take (length dst) src @ drop (length src) dst"

text \<open>\<^verbatim>\<open>strings.Compare\<close> of the Go library.\<close>

definition strings_Compare :: "string \<Rightarrow> string \<Rightarrow> int" where
  "strings_Compare a b = (if a = b then 0 else if a < b then - 1 else 1)"

text \<open>\<^verbatim>\<open>sort.Strings\<close> of the Go library: sorts in increasing order.\<close>

definition sort_Strings :: "string list \<Rightarrow> string list" where
  "sort_Strings s = sort s"

text \<open>The 64-bit two's complement value of an integer.\<close>

definition wrap64 :: "int \<Rightarrow> int" where
  "wrap64 x = (x + 2 ^ 63) mod 2 ^ 64 - 2 ^ 63"

subsection \<open>The mutex and the array\<close>

text \<open>
  Modelled from the spec: the type \<^verbatim>\<open>rwmutex.RWMutex\<close> is missing from the source file.
  A mutex is fixed at construction as safe (a reader-writer lock) or unsafe (no
  synchronisation); the lock is held by one writer or by a number of readers.
\<close>

record RWMutex =
  safe :: bool
  writer :: bool
  readers :: nat

text \<open>
  Modelled from the spec: the constructor \<^verbatim>\<open>rwmutex.New\<close> is missing from the source
  file. It takes the optional parameter \<^verbatim>\<open>unsafe\<close>, which the comment of
  \<^verbatim>\<open>NewSortedStringArray\<close> describes: it specifies use without concurrent safety and is
  false by default, that is, concurrent-safe by default.
\<close>

definition rwmutex_New :: "bool list \<Rightarrow> RWMutex" where
  "rwmutex_New unsafe =
     (if length unsafe > 0 then \<lparr>safe = \<not> unsafe ! 0, writer = False, readers = 0\<rparr>
      else \<lparr>safe = True, writer = False, readers = 0\<rparr>)"

text \<open>
  Modelled from the spec: the method \<^verbatim>\<open>IsSafe\<close> is missing from the source file. It
  tells whether the mutex synchronises.
\<close>

definition IsSafe :: "RWMutex \<Rightarrow> bool" where
  "IsSafe m = safe m"

text \<open>
  Modelled from the spec: the methods \<^verbatim>\<open>Lock\<close>, \<^verbatim>\<open>Unlock\<close>, \<^verbatim>\<open>RLock\<close> and
  \<^verbatim>\<open>RUnlock\<close> are missing from the source file. On a safe mutex a writer excludes
  readers and other writers, and readers exclude a writer. The lock is not reentrant, so
  in one thread of control an acquisition that has to wait never returns; the model makes
  it the panic \<open>Deadlock\<close>. On an unsafe mutex the methods do nothing.
\<close>

definition Lock :: "RWMutex \<Rightarrow> panic + RWMutex" where
  "Lock m =
     (if safe m then (if writer m \<or> readers m > 0 then Inl Deadlock else Inr (m\<lparr>writer := True\<rparr>))
      else Inr m)"

definition Unlock :: "RWMutex \<Rightarrow> RWMutex" where
  "Unlock m = (if safe m then m\<lparr>writer := False\<rparr> else m)"

definition RLock :: "RWMutex \<Rightarrow> panic + RWMutex" where
  "RLock m =
     (if safe m then (if writer m then Inl Deadlock else Inr (m\<lparr>readers := readers m + 1\<rparr>))
      else Inr m)"

definition RUnlock :: "RWMutex \<Rightarrow> RWMutex" where
  "RUnlock m = (if safe m then m\<lparr>readers := readers m - 1\<rparr> else m)"

text \<open>
  The field \<^verbatim>\<open>compareFunc\<close> is private, set by the one constructor to a closure
  around \<^verbatim>\<open>strings.Compare\<close> and never assigned again, so it is a constant of the model.
  The field \<^verbatim>\<open>unique\<close> is a \<^verbatim>\<open>gtype.Bool\<close>, a boolean cell that starts false.
\<close>

record SortedStringArray =
  mu :: RWMutex
  array :: "string list"
  unique :: bool

definition compareFunc :: "string \<Rightarrow> string \<Rightarrow> int" where
  "compareFunc v1 v2 = strings_Compare v1 v2"

text \<open>
  The constructors. \<^verbatim>\<open>make([]string, 0, cap)\<close> panics when the capacity is negative;
  otherwise the capacity has no effect on the value.
\<close>

definition NewSortedStringArraySize :: "int \<Rightarrow> bool list \<Rightarrow> panic + SortedStringArray" where
  "NewSortedStringArraySize cap unsafe =
     (if cap < 0 then Inl MakeSliceCapOutOfRange
      else Inr \<lparr>mu = rwmutex_New unsafe, array = [], unique = False\<rparr>)"

definition NewSortedStringArray :: "bool list \<Rightarrow> panic + SortedStringArray" where
  "NewSortedStringArray unsafe = NewSortedStringArraySize 0 unsafe"

definition NewSortedStringArrayFrom ::
  "string list \<Rightarrow> bool list \<Rightarrow> panic + SortedStringArray" where
  "NewSortedStringArrayFrom arr unsafe =
     (case NewSortedStringArraySize 0 unsafe of
        Inl e \<Rightarrow> Inl e
      | Inr a \<Rightarrow> Inr (a\<lparr>array := sort_Strings arr\<rparr>))"

definition SetArray :: "SortedStringArray \<Rightarrow> string list \<Rightarrow> SortedStringArray" where
  "SetArray a arr = a\<lparr>array := sort_Strings arr\<rparr>"

definition Len :: "SortedStringArray \<Rightarrow> int" where
  "Len a = int (length (array a))"

subsection \<open>Binary search and insertion\<close>

function binSearch_loop ::
  "string list \<Rightarrow> string \<Rightarrow> int \<Rightarrow> int \<Rightarrow> int \<Rightarrow> int \<Rightarrow> panic + int \<times> int" where
  "binSearch_loop arr v mn mx mid cmp =
     (if mn \<le> mx then
        (let mid' = (mn + mx) sdiv 2 in
         if 0 \<le> mid' \<and> mid' < int (length arr) then
           (let cmp' = compareFunc v (arr ! nat mid') in
            if cmp' < 0 then binSearch_loop arr v mn (mid' - 1) mid' cmp'
            else if cmp' > 0 then binSearch_loop arr v (mid' + 1) mx mid' cmp'
            else Inr (mid', cmp'))
         else Inl IndexOutOfRange)
      else Inr (mid, cmp))"
  by pat_completeness auto
termination
proof (relation "measure (\<lambda>(arr, v, mn, mx, mid, cmp). nat (mx - mn + 1))", goal_cases)
  case 1
  show ?case by simp
next
  case (2 arr v mn mx mid cmp x xa)
  then show ?case
    by (auto simp: signed_divide_int_def sgn_if split: if_splits)
next
  case (3 arr v mn mx mid cmp x xa)
  then show ?case
    by (auto simp: signed_divide_int_def sgn_if split: if_splits)
qed

declare binSearch_loop.simps [simp del]

text \<open>The parameter \<^verbatim>\<open>lock\<close> chooses whether the read lock is taken.\<close>

definition binSearch :: "SortedStringArray \<Rightarrow> string \<Rightarrow> bool \<Rightarrow> panic + int \<times> int" where
  "binSearch a v lock =
     (if length (array a) = 0 then Inr (- 1, - 2)
      else binSearch_loop (array a) v 0 (int (length (array a)) - 1) 0 (- 2))"

definition Search :: "SortedStringArray \<Rightarrow> string \<Rightarrow> panic + int \<times> int" where
  "Search a v = binSearch a v True"

text \<open>The body of the loop of \<^verbatim>\<open>Add\<close>, for one value.\<close>

definition Add_value :: "SortedStringArray \<Rightarrow> string \<Rightarrow> panic + SortedStringArray" where
  "Add_value a v =
     (case binSearch a v False of
        Inl e \<Rightarrow> Inl e
      | Inr (index, cmp) \<Rightarrow>
          if unique a \<and> cmp = 0 then Inr a
          else if index < 0 then Inr (a\<lparr>array := array a @ [v]\<rparr>)
          else
            (let index' = (if cmp > 0 then index + 1 else index) in
             case slice_of (array a) index' (int (length (array a))) of
               Inl e \<Rightarrow> Inl e
             | Inr rear \<Rightarrow>
                 (case slice_of (array a) 0 index' of
                    Inl e \<Rightarrow> Inl e
                  | Inr front \<Rightarrow> Inr (a\<lparr>array := (front @ [v]) @ rear\<rparr>))))"

fun Add_loop :: "SortedStringArray \<Rightarrow> string list \<Rightarrow> panic + SortedStringArray" where
  "Add_loop a [] = Inr a"
| "Add_loop a (v # vs) =
     (case Add_value a v of Inl e \<Rightarrow> Inl e | Inr a' \<Rightarrow> Add_loop a' vs)"

definition Add :: "SortedStringArray \<Rightarrow> string list \<Rightarrow> panic + SortedStringArray" where
  "Add a vs = (if length vs = 0 then Inr a else Add_loop a vs)"

text \<open>
  A caller's sequence of calls of \<^verbatim>\<open>Add\<close>, each with its own list of values.
\<close>

fun Add_calls :: "SortedStringArray \<Rightarrow> string list list \<Rightarrow> panic + SortedStringArray" where
  "Add_calls a [] = Inr a"
| "Add_calls a (vs # calls) =
     (case Add a vs of Inl e \<Rightarrow> Inl e | Inr a' \<Rightarrow> Add_calls a' calls)"

subsection \<open>The invariants of the data model\<close>

text \<open>
  Sortedness (I1) and uniqueness (I2), on adjacent pairs under the comparison function.
\<close>

fun I1 :: "string list \<Rightarrow> bool" where
  "I1 (x # y # zs) = (compareFunc x y \<le> 0 \<and> I1 (y # zs))"
| "I1 zs = True"

fun I2 :: "string list \<Rightarrow> bool" where
  "I2 (x # y # zs) = (compareFunc x y \<noteq> 0 \<and> I2 (y # zs))"
| "I2 zs = True"

subsection \<open>Clone\<close>

text \<open>The copy is made into a fresh slice of the same length and handed to the constructor.\<close>

definition Clone :: "SortedStringArray \<Rightarrow> panic + SortedStringArray" where
  "Clone a =
     (let arr = copy_into (replicate (length (array a)) []) (array a)
      in NewSortedStringArrayFrom arr [\<not> IsSafe (mu a)])"

subsection \<open>Removal of duplicates\<close>

text \<open>
  The loop of \<^verbatim>\<open>Unique\<close>. The two index expressions \<^verbatim>\<open>a.array[i]\<close> and
  \<^verbatim>\<open>a.array[i + 1]\<close> are checked; the slice expressions of the removal are then in range.
\<close>

function Unique_loop :: "string list \<Rightarrow> int \<Rightarrow> panic + string list" where
  "Unique_loop arr i =
     (if i = int (length arr) - 1 then Inr arr
      else if 0 \<le> i \<and> i < int (length arr) \<and> 0 \<le> i + 1 \<and> i + 1 < int (length arr) then
        (if compareFunc (arr ! nat i) (arr ! nat (i + 1)) = 0
         then Unique_loop (take (nat (i + 1)) arr @ drop (nat (i + 1 + 1)) arr) i
         else Unique_loop arr (i + 1))
      else Inl IndexOutOfRange)"
  by pat_completeness auto
termination
  by (relation "measure (\<lambda>(arr, i). nat (2 * int (length arr) - i))") auto

declare Unique_loop.simps [simp del]

definition Unique :: "SortedStringArray \<Rightarrow> panic + SortedStringArray" where
  "Unique a =
     (case Unique_loop (array a) 0 of Inl e \<Rightarrow> Inl e | Inr arr \<Rightarrow> Inr (a\<lparr>array := arr\<rparr>))"

definition SetUnique :: "SortedStringArray \<Rightarrow> bool \<Rightarrow> panic + SortedStringArray" where
  "SetUnique a u =
     (let oldUnique = unique a; a' = a\<lparr>unique := u\<rparr>
      in if u \<and> oldUnique \<noteq> u then Unique a' else Inr a')"

subsection \<open>Removal, clearing and merging\<close>

definition Remove :: "SortedStringArray \<Rightarrow> int \<Rightarrow> panic + string \<times> SortedStringArray" where
  "Remove a index =
     (let n = int (length (array a)) in
      if index = 0 then
        (case index_at (array a) 0 of
           Inl e \<Rightarrow> Inl e
         | Inr v \<Rightarrow>
             (case slice_of (array a) 1 n of
                Inl e \<Rightarrow> Inl e
              | Inr rest \<Rightarrow> Inr (v, a\<lparr>array := rest\<rparr>)))
      else if index = n - 1 then
        (case index_at (array a) index of
           Inl e \<Rightarrow> Inl e
         | Inr v \<Rightarrow>
             (case slice_of (array a) 0 index of
                Inl e \<Rightarrow> Inl e
              | Inr rest \<Rightarrow> Inr (v, a\<lparr>array := rest\<rparr>)))
      else
        (case index_at (array a) index of
           Inl e \<Rightarrow> Inl e
         | Inr v \<Rightarrow>
             (case slice_of (array a) 0 index of
                Inl e \<Rightarrow> Inl e
              | Inr front \<Rightarrow>
                  (case slice_of (array a) (index + 1) n of
                     Inl e \<Rightarrow> Inl e
                   | Inr rear \<Rightarrow> Inr (v, a\<lparr>array := front @ rear\<rparr>)))))"

definition Clear :: "SortedStringArray \<Rightarrow> SortedStringArray" where
  "Clear a = (if length (array a) > 0 then a\<lparr>array := []\<rparr> else a)"

text \<open>
  \<^verbatim>\<open>Merge\<close> on the values of the two arrays. When the argument is the receiver
  itself, both values are the same.
\<close>

definition Merge :: "SortedStringArray \<Rightarrow> SortedStringArray \<Rightarrow> SortedStringArray" where
  "Merge a other = a\<lparr>array := sort_Strings (array a @ array other)\<rparr>"

text \<open>
  \<^verbatim>\<open>Merge\<close> with the locks, on a store of arrays addressed by pointers: the
  receiver is write-locked, the argument is read-locked unless it is the receiver, and
  the deferred calls release the locks in the reverse order.
\<close>

definition Merge_at ::
  "(nat \<Rightarrow> SortedStringArray) \<Rightarrow> nat \<Rightarrow> nat \<Rightarrow> panic + (nat \<Rightarrow> SortedStringArray)" where
  "Merge_at st a other =
     (case Lock (mu (st a)) of
        Inl e \<Rightarrow> Inl e
      | Inr m \<Rightarrow>
          (let st1 = st(a := (st a)\<lparr>mu := m\<rparr>) in
           case (if a \<noteq> other
                 then (case RLock (mu (st1 other)) of
                         Inl e \<Rightarrow> Inl e
                       | Inr m' \<Rightarrow> Inr (st1(other := (st1 other)\<lparr>mu := m'\<rparr>)))
                 else Inr st1) of
             Inl e \<Rightarrow> Inl e
           | Inr st2 \<Rightarrow>
               (let st3 = st2(a := Merge (st2 a) (st2 other));
                    st4 = (if a \<noteq> other
                           then st3(other := (st3 other)\<lparr>mu := RUnlock (mu (st3 other))\<rparr>)
                           else st3)
                in Inr (st4(a := (st4 a)\<lparr>mu := Unlock (mu (st4 a))\<rparr>)))))"

subsection \<open>Chunks, sub-slices and random picks\<close>

function Chunk_loop ::
  "string list \<Rightarrow> int \<Rightarrow> int \<Rightarrow> int \<Rightarrow> int \<Rightarrow> string list list \<Rightarrow> panic + string list list" where
  "Chunk_loop arr sz n i chunks acc =
     (if chunks > 0 then
        (let hi = (i + 1) * sz;
             hi = (if hi > n then n else hi)
         in case slice_of arr (i * sz) hi of
              Inl e \<Rightarrow> Inl e
            | Inr c \<Rightarrow> Chunk_loop arr sz n (i + 1) (chunks - 1) (acc @ [c]))
      else Inr acc)"
  by pat_completeness auto
termination
  by (relation "measure (\<lambda>(arr, sz, n, i, chunks, acc). nat chunks)") auto

declare Chunk_loop.simps [simp del]

text \<open>
  The number of chunks is computed in \<^verbatim>\<open>float64\<close> as the ceiling of the quotient.
  The model computes it in the reals: the conversion of a length below \<open>2\<^sup>5\<^sup>3\<close> is exact,
  the division is correctly rounded, and the quotient of such a length by a positive
  integer is farther from the next smaller integer than the rounding error, so the
  ceiling of the rounded quotient is the ceiling of the exact one.
\<close>

definition Chunk :: "SortedStringArray \<Rightarrow> int \<Rightarrow> panic + string list list" where
  "Chunk a sz =
     (if sz < 1 then Inl (PanicMsg ''size: cannot be less than 1'')
      else
        (let n = int (length (array a));
             chunks = \<lceil>real_of_int n / real_of_int sz\<rceil>
         in Chunk_loop (array a) sz n 0 chunks []))"

text \<open>
  \<^verbatim>\<open>SubSlice\<close>; \<open>sz\<close> stands for the parameter \<^verbatim>\<open>size\<close> here and in the other
  methods. A \<^verbatim>\<open>nil\<close> slice is the empty sequence. The allocation of the copy is
  modelled without a bound on memory.
\<close>

definition SubSlice :: "SortedStringArray \<Rightarrow> int \<Rightarrow> int \<Rightarrow> panic + string list" where
  "SubSlice a offset sz =
     (let n = int (length (array a)) in
      if offset > n then Inr []
      else
        (let sz' = (if wrap64 (offset + sz) > n then wrap64 (n - offset) else sz) in
         if IsSafe (mu a) then
           (case make_strings sz' of
              Inl e \<Rightarrow> Inl e
            | Inr s \<Rightarrow>
                (case slice_of (array a) offset n of
                   Inl e \<Rightarrow> Inl e
                 | Inr src \<Rightarrow> Inr (copy_into s src)))
         else slice_of (array a) offset n))"

text \<open>
  Modelled from the spec: \<^verbatim>\<open>grand.Perm\<close> is not part of the source file; it returns a
  random permutation of the indices \<open>0, \<dots>, n - 1\<close>. The permutation drawn is the
  parameter \<open>perm\<close> of the model.
\<close>

fun Rand_loop ::
  "string list \<Rightarrow> int \<Rightarrow> string list \<Rightarrow> int \<Rightarrow> int list \<Rightarrow> panic + string list" where
  "Rand_loop arr sz n i [] = Inr n"
| "Rand_loop arr sz n i (v # vs) =
     (case index_at arr v of
        Inl e \<Rightarrow> Inl e
      | Inr x \<Rightarrow>
          if 0 \<le> i \<and> i < int (length n) then
            (let n' = n[nat i := x] in
             if i = sz - 1 then Inr n' else Rand_loop arr sz n' (i + 1) vs)
          else Inl IndexOutOfRange)"

definition Rand :: "SortedStringArray \<Rightarrow> int \<Rightarrow> int list \<Rightarrow> panic + string list" where
  "Rand a sz perm =
     (let sz' = (if sz > int (length (array a)) then int (length (array a)) else sz) in
      case make_strings sz' of
        Inl e \<Rightarrow> Inl e
      | Inr n \<Rightarrow> Rand_loop (array a) sz' n 0 perm)"

subsection \<open>Slices in memory\<close>

text \<open>
  Whether two arrays share storage cannot be seen on values, so the methods that a claim
  about sharing needs are modelled a second time on an explicit memory. The memory maps
  addresses to strings; \<open>brk\<close> is the first address that was never allocated (the
  garbage collector never hands out storage that is still referenced, so allocation only
  moves \<open>brk\<close> forward). A slice is Go's slice header: the address of its first element,
  its length and its capacity.
\<close>

record heap =
  mem :: "nat \<Rightarrow> string"
  brk :: nat

record slice =
  s_base :: nat
  s_len :: nat
  s_cap :: nat

text \<open>The elements of a slice, and the store of a sequence of strings at an address.\<close>

definition elems :: "heap \<Rightarrow> slice \<Rightarrow> string list" where
  "elems h s = map (mem h) [s_base s ..< s_base s + s_len s]"

definition write_at :: "heap \<Rightarrow> nat \<Rightarrow> string list \<Rightarrow> heap" where
  "write_at h p xs =
     h\<lparr>mem := (\<lambda>q. if p \<le> q \<and> q < p + length xs then xs ! (q - p) else mem h q)\<rparr>"

text \<open>
  \<^verbatim>\<open>make([]string, n, c)\<close> allocates \<open>c\<close> empty strings. \<^verbatim>\<open>copy(dst, src)\<close> reads the
  source before it writes. \<^verbatim>\<open>append(s, xs...)\<close> writes in place behind the elements when
  the capacity suffices and moves the elements to fresh storage otherwise; the capacity of
  the fresh storage is chosen by the Go run time, which the model takes as a parameter
  \<open>gr\<close> (old capacity and needed length to new capacity) and raises to the needed length.
  The values appended are read before anything is written, as \<^verbatim>\<open>memmove\<close> does.
\<close>

definition go_make :: "heap \<Rightarrow> nat \<Rightarrow> nat \<Rightarrow> heap \<times> slice" where
  "go_make h n c =
     ((write_at h (brk h) (replicate c []))\<lparr>brk := brk h + c\<rparr>,
      \<lparr>s_base = brk h, s_len = n, s_cap = c\<rparr>)"

definition go_copy :: "heap \<Rightarrow> slice \<Rightarrow> slice \<Rightarrow> heap" where
  "go_copy h dst src = write_at h (s_base dst) (take (s_len dst) (elems h src))"

definition go_append ::
  "(nat \<Rightarrow> nat \<Rightarrow> nat) \<Rightarrow> heap \<Rightarrow> slice \<Rightarrow> string list \<Rightarrow> heap \<times> slice" where
  "go_append gr h s xs =
     (let n = s_len s + length xs in
      if n \<le> s_cap s then (write_at h (s_base s + s_len s) xs, s\<lparr>s_len := n\<rparr>)
      else
        (case go_make h n (max n (gr (s_cap s) n)) of
           (h1, t) \<Rightarrow> (write_at h1 (s_base t) (elems h s @ xs), t)))"

text \<open>\<^verbatim>\<open>s[lo:hi]\<close> on a slice header: the upper bound is limited by the capacity.\<close>

definition slice_expr :: "slice \<Rightarrow> int \<Rightarrow> int \<Rightarrow> panic + slice" where
  "slice_expr s lo hi =
     (if 0 \<le> lo \<and> lo \<le> hi \<and> hi \<le> int (s_cap s)
      then Inr \<lparr>s_base = s_base s + nat lo, s_len = nat (hi - lo), s_cap = s_cap s - nat lo\<rparr>
      else Inl SliceBoundsOutOfRange)"

text \<open>\<^verbatim>\<open>sort.Strings\<close> sorts the elements of the slice in place.\<close>

definition sort_Strings_at :: "heap \<Rightarrow> slice \<Rightarrow> heap" where
  "sort_Strings_at h s = write_at h (s_base s) (sort_Strings (elems h s))"

subsection \<open>The array in memory\<close>

text \<open>
  The struct with its field \<^verbatim>\<open>array\<close> as a slice header, and the value it stands for
  in a memory. The methods carry the suffix \<open>H\<close>; they follow the source statement by
  statement, with the memory passed along.
\<close>

record SortedStringArrayH =
  muH :: RWMutex
  arrayH :: slice
  uniqueH :: bool

definition abs_of :: "heap \<Rightarrow> SortedStringArrayH \<Rightarrow> SortedStringArray" where
  "abs_of h a = \<lparr>mu = muH a, array = elems h (arrayH a), unique = uniqueH a\<rparr>"

definition NewSortedStringArrayFromH ::
  "heap \<Rightarrow> slice \<Rightarrow> bool list \<Rightarrow> panic + heap \<times> SortedStringArrayH" where
  "NewSortedStringArrayFromH h arr unsafe =
     (case NewSortedStringArraySize 0 unsafe of
        Inl e \<Rightarrow> Inl e
      | Inr a \<Rightarrow>
          Inr (sort_Strings_at h arr, \<lparr>muH = mu a, arrayH = arr, uniqueH = unique a\<rparr>))"

definition SetArrayH :: "heap \<Rightarrow> SortedStringArrayH \<Rightarrow> slice \<Rightarrow> heap \<times> SortedStringArrayH" where
  "SetArrayH h a arr = (sort_Strings_at h arr, a\<lparr>arrayH := arr\<rparr>)"

definition CloneH :: "heap \<Rightarrow> SortedStringArrayH \<Rightarrow> panic + heap \<times> SortedStringArrayH" where
  "CloneH h a =
     (case go_make h (s_len (arrayH a)) (s_len (arrayH a)) of
        (h1, arr) \<Rightarrow>
          NewSortedStringArrayFromH (go_copy h1 arr (arrayH a)) arr [\<not> IsSafe (muH a)])"

definition ClearH :: "heap \<Rightarrow> SortedStringArrayH \<Rightarrow> heap \<times> SortedStringArrayH" where
  "ClearH h a =
     (if s_len (arrayH a) > 0
      then (case go_make h 0 0 of (h1, arr) \<Rightarrow> (h1, a\<lparr>arrayH := arr\<rparr>))
      else (h, a))"

definition Add_valueH ::
  "(nat \<Rightarrow> nat \<Rightarrow> nat) \<Rightarrow> heap \<Rightarrow> SortedStringArrayH \<Rightarrow> string \<Rightarrow>
     panic + heap \<times> SortedStringArrayH" where
  "Add_valueH gr h a v =
     (case binSearch (abs_of h a) v False of
        Inl e \<Rightarrow> Inl e
      | Inr (index, cmp) \<Rightarrow>
          if uniqueH a \<and> cmp = 0 then Inr (h, a)
          else if index < 0 then
            (case go_append gr h (arrayH a) [v] of (h1, arr) \<Rightarrow> Inr (h1, a\<lparr>arrayH := arr\<rparr>))
          else
            (let index' = (if cmp > 0 then index + 1 else index) in
             case slice_expr (arrayH a) index' (int (s_len (arrayH a))) of
               Inl e \<Rightarrow> Inl e
             | Inr tail \<Rightarrow>
                 (case go_append gr h \<lparr>s_base = 0, s_len = 0, s_cap = 0\<rparr> (elems h tail) of
                    (h1, rear) \<Rightarrow>
                      (case slice_expr (arrayH a) 0 index' of
                         Inl e \<Rightarrow> Inl e
                       | Inr front \<Rightarrow>
                           (case go_append gr h1 front [v] of
                              (h2, arr) \<Rightarrow>
                                (case go_append gr h2 arr (elems h2 rear) of
                                   (h3, arr') \<Rightarrow> Inr (h3, a\<lparr>arrayH := arr'\<rparr>)))))))"

fun Add_loopH ::
  "(nat \<Rightarrow> nat \<Rightarrow> nat) \<Rightarrow> heap \<Rightarrow> SortedStringArrayH \<Rightarrow> string list \<Rightarrow>
     panic + heap \<times> SortedStringArrayH" where
  "Add_loopH gr h a [] = Inr (h, a)"
| "Add_loopH gr h a (v # vs) =
     (case Add_valueH gr h a v of Inl e \<Rightarrow> Inl e | Inr (h', a') \<Rightarrow> Add_loopH gr h' a' vs)"

definition AddH ::
  "(nat \<Rightarrow> nat \<Rightarrow> nat) \<Rightarrow> heap \<Rightarrow> SortedStringArrayH \<Rightarrow> string list \<Rightarrow>
     panic + heap \<times> SortedStringArrayH" where
  "AddH gr h a vs = (if length vs = 0 then Inr (h, a) else Add_loopH gr h a vs)"

definition RemoveH ::
  "(nat \<Rightarrow> nat \<Rightarrow> nat) \<Rightarrow> heap \<Rightarrow> SortedStringArrayH \<Rightarrow> int \<Rightarrow>
     panic + string \<times> heap \<times> SortedStringArrayH" where
  "RemoveH gr h a index =
     (let n = int (s_len (arrayH a)) in
      if index = 0 then
        (case index_at (elems h (arrayH a)) 0 of
           Inl e \<Rightarrow> Inl e
         | Inr v \<Rightarrow>
             (case slice_expr (arrayH a) 1 n of
                Inl e \<Rightarrow> Inl e
              | Inr rest \<Rightarrow> Inr (v, h, a\<lparr>arrayH := rest\<rparr>)))
      else if index = n - 1 then
        (case index_at (elems h (arrayH a)) index of
           Inl e \<Rightarrow> Inl e
         | Inr v \<Rightarrow>
             (case slice_expr (arrayH a) 0 index of
                Inl e \<Rightarrow> Inl e
              | Inr rest \<Rightarrow> Inr (v, h, a\<lparr>arrayH := rest\<rparr>)))
      else
        (case index_at (elems h (arrayH a)) index of
           Inl e \<Rightarrow> Inl e
         | Inr v \<Rightarrow>
             (case slice_expr (arrayH a) 0 index of
                Inl e \<Rightarrow> Inl e
              | Inr front \<Rightarrow>
                  (case slice_expr (arrayH a) (index + 1) n of
                     Inl e \<Rightarrow> Inl e
                   | Inr tail \<Rightarrow>
                       (case go_append gr h front (elems h tail) of
                          (h1, arr) \<Rightarrow> Inr (v, h1, a\<lparr>arrayH := arr\<rparr>))))))"



subsection \<open>Auxiliary notions of the proofs\<close>

text \<open>
  What the binary search establishes about its last probe \<open>(idx, c)\<close> on a sorted array:
  the probe is inside the array, \<open>c\<close> is the comparison of the value with the element
  there, and when \<open>c\<close> is not zero every element on the left of the insertion slot is smaller
  than the value and every element from the slot on is greater.
\<close>

definition probe_ok :: "string list \<Rightarrow> string \<Rightarrow> int \<times> int \<Rightarrow> bool" where
  "probe_ok arr v r = (case r of (idx, c) \<Rightarrow>
     0 \<le> idx \<and> idx < int (length arr) \<and> c = compareFunc v (arr ! nat idx) \<and>
     (c < 0 \<longrightarrow> (\<forall>i < nat idx. arr ! i < v) \<and> (\<forall>i. nat idx \<le> i \<and> i < length arr \<longrightarrow> v < arr ! i)) \<and>
     (c > 0 \<longrightarrow> (\<forall>i \<le> nat idx. arr ! i < v) \<and> (\<forall>i. nat idx < i \<and> i < length arr \<longrightarrow> v < arr ! i)))"

text \<open>The slot at which \<^verbatim>\<open>Add\<close> inserts after the probe \<open>(idx, c)\<close>.\<close>

definition insert_pos :: "int \<times> int \<Rightarrow> nat" where
  "insert_pos r = (case r of (idx, c) \<Rightarrow> nat (if c > 0 then idx + 1 else idx))"

text \<open>The \<open>k\<close>-th group of \<open>s\<close> consecutive elements of an array.\<close>

definition chunk_at :: "string list \<Rightarrow> nat \<Rightarrow> nat \<Rightarrow> string list" where
  "chunk_at arr s k = take s (drop (k * s) arr)"

text \<open>
  Notions of the proofs about memory: the addresses a slice may write to; a slice that
  lies inside allocated memory; a memory \<open>h'\<close> that agrees with \<open>h\<close> on every allocated
  address outside of \<open>R\<close>; a slice that lies in \<open>R\<close> or in memory allocated after \<open>h\<close>;
  the three together, as the invariant of a method that starts in \<open>h0\<close>.
\<close>

definition region :: "slice \<Rightarrow> nat set" where
  "region s = {s_base s ..< s_base s + s_cap s}"

definition valid :: "heap \<Rightarrow> slice \<Rightarrow> bool" where
  "valid h s \<longleftrightarrow> s_len s \<le> s_cap s \<and> s_base s + s_cap s \<le> brk h"

definition frame :: "heap \<Rightarrow> heap \<Rightarrow> nat set \<Rightarrow> bool" where
  "frame h h' R \<longleftrightarrow> brk h \<le> brk h' \<and> (\<forall>p. p < brk h \<and> p \<notin> R \<longrightarrow> mem h' p = mem h p)"

definition owned :: "heap \<Rightarrow> nat set \<Rightarrow> slice \<Rightarrow> bool" where
  "owned h R s \<longleftrightarrow> region s \<subseteq> R \<union> {p. brk h \<le> p}"






section \<open>Properties\<close>

subsection \<open>The mode of a clone\<close>

text \<open>
  C1, as the code has it: \<^verbatim>\<open>Clone\<close> passes \<^verbatim>\<open>!a.mu.IsSafe()\<close> as the parameter
  \<^verbatim>\<open>unsafe\<close> of the constructor, so the clone synchronises exactly when the source
  does: the clone of a safe array is safe and the clone of an unsafe array is unsafe.
\<close>

theorem Clone_keeps_mode: "\<exists>c. Clone a = Inr c \<and> IsSafe (mu c) = IsSafe (mu a)"
  by (simp add: Clone_def NewSortedStringArrayFrom_def NewSortedStringArraySize_def
      rwmutex_New_def IsSafe_def Let_def)

text \<open>
  C1, as the claim states it, fails: the constructor with no argument makes a safe array,
  and the clone of that array is safe, not unsafe.
\<close>

theorem Clone_mode_not_inverted:
  "NewSortedStringArray [] =
     Inr \<lparr>mu = \<lparr>safe = True, writer = False, readers = 0\<rparr>, array = [], unique = False\<rparr> \<and>
   Clone \<lparr>mu = \<lparr>safe = True, writer = False, readers = 0\<rparr>, array = [], unique = False\<rparr> =
     Inr \<lparr>mu = \<lparr>safe = True, writer = False, readers = 0\<rparr>, array = [], unique = False\<rparr> \<and>
   IsSafe \<lparr>safe = True, writer = False, readers = 0\<rparr>"
  by (simp add: Clone_def NewSortedStringArrayFrom_def NewSortedStringArraySize_def
      NewSortedStringArray_def rwmutex_New_def IsSafe_def Let_def copy_into_def sort_Strings_def)

subsection \<open>The comparison function and the invariants\<close>

lemma compareFunc_neg: "compareFunc a b < 0 \<longleftrightarrow> a < b"
  by (auto simp: compareFunc_def strings_Compare_def)
lemma compareFunc_pos: "compareFunc a b > 0 \<longleftrightarrow> b < a"
  by (auto simp: compareFunc_def strings_Compare_def)
lemma compareFunc_zero: "compareFunc a b = 0 \<longleftrightarrow> a = b"
  by (auto simp: compareFunc_def strings_Compare_def)

lemma sdiv_2_nonneg: "0 \<le> k \<Longrightarrow> k sdiv 2 = k div (2::int)"
  by (simp add: signed_divide_int_def sgn_if)

lemma compareFunc_le: "compareFunc a b \<le> 0 \<longleftrightarrow> a \<le> b"
  by (auto simp: compareFunc_def strings_Compare_def)

lemma I1_sorted: "I1 xs \<longleftrightarrow> sorted xs"
  by (induction xs rule: I1.induct) (simp_all add: compareFunc_le sorted0 sorted1 sorted2 del: sorted_wrt.simps)

lemma I1_adjacent:
  "I1 xs \<longleftrightarrow> (\<forall>i. i + 1 < length xs \<longrightarrow> compareFunc (xs ! i) (xs ! (i + 1)) \<le> 0)"
  by (simp add: I1_sorted compareFunc_le sorted_iff_nth_Suc Suc_lessI)

lemma I2_adjacent:
  "I2 xs \<longleftrightarrow> (\<forall>i. i + 1 < length xs \<longrightarrow> compareFunc (xs ! i) (xs ! (i + 1)) \<noteq> 0)"
proof (induction xs rule: I2.induct)
  case (1 x y zs)
  show ?case
  proof
    assume a: "I2 (x # y # zs)"
    show "\<forall>i. i + 1 < length (x # y # zs) \<longrightarrow>
        compareFunc ((x # y # zs) ! i) ((x # y # zs) ! (i + 1)) \<noteq> 0"
    proof (intro allI impI)
      fix i assume "i + 1 < length (x # y # zs)"
      then show "compareFunc ((x # y # zs) ! i) ((x # y # zs) ! (i + 1)) \<noteq> 0"
        using a 1 by (cases i) auto
    qed
  next
    assume a: "\<forall>i. i + 1 < length (x # y # zs) \<longrightarrow>
        compareFunc ((x # y # zs) ! i) ((x # y # zs) ! (i + 1)) \<noteq> 0"
    from a[rule_format, of 0] have "compareFunc x y \<noteq> 0" by simp
    moreover have "\<forall>i. i + 1 < length (y # zs) \<longrightarrow>
        compareFunc ((y # zs) ! i) ((y # zs) ! (i + 1)) \<noteq> 0"
      using a[rule_format, of "Suc i" for i] by auto
    ultimately show "I2 (x # y # zs)" using 1 by simp
  qed
qed simp_all

lemma I1_I2_distinct: "I1 xs \<Longrightarrow> I2 xs \<longleftrightarrow> distinct xs"
proof (induction xs rule: I2.induct)
  case (1 x y zs)
  then have s: "sorted (x # y # zs)" by (simp add: I1_sorted)
  then have "x \<notin> set (y # zs) \<longleftrightarrow> x \<noteq> y" by auto
  then show ?case using 1 by (auto simp: compareFunc_zero)
qed simp_all

subsection \<open>Binary search on a sorted array\<close>

lemma binSearch_loop_sorted:
  assumes "sorted arr" "0 \<le> mn" "mx < int (length arr)" "mn \<le> mx"
    "\<forall>i < nat mn. arr ! i < v"
    "\<forall>i. nat (mx + 1) \<le> i \<and> i < length arr \<longrightarrow> v < arr ! i"
  shows "\<exists>r. binSearch_loop arr v mn mx mid cmp = Inr r \<and> probe_ok arr v r"
  using assms
proof (induction arr v mn mx mid cmp rule: binSearch_loop.induct)
  case (1 arr v mn mx mid cmp)
  define m where "m = (mn + mx) div 2"
  have msd: "(mn + mx) sdiv 2 = m"
    using "1.prems" by (simp add: sdiv_2_nonneg m_def)
  have mb: "mn \<le> m" "m \<le> mx" "0 \<le> m" "m < int (length arr)"
    using "1.prems" by (auto simp: m_def)
  define c where "c = compareFunc v (arr ! nat m)"
  have unf: "binSearch_loop arr v mn mx mid cmp =
      (if c < 0 then binSearch_loop arr v mn (m - 1) m c
       else if c > 0 then binSearch_loop arr v (m + 1) mx m c
       else Inr (m, c))"
    using "1.prems"(4) mb
    by (subst binSearch_loop.simps) (simp add: msd c_def Let_def)
  show ?case
  proof (cases "c < 0")
    case True
    then have lt: "v < arr ! nat m" by (simp add: c_def compareFunc_neg)
    have above: "\<forall>i. nat m \<le> i \<and> i < length arr \<longrightarrow> v < arr ! i"
    proof (intro allI impI)
      fix i assume "nat m \<le> i \<and> i < length arr"
      then have "arr ! nat m \<le> arr ! i"
        using "1.prems"(1) by (simp add: sorted_nth_mono)
      with lt show "v < arr ! i" by simp
    qed
    show ?thesis
    proof (cases "mn \<le> m - 1")
      case le: True
      have "\<exists>r. binSearch_loop arr v mn (m - 1) m c = Inr r \<and> probe_ok arr v r"
      proof (rule "1.IH"(1)[OF "1.prems"(4) msd[symmetric] _ c_def True])
        show "0 \<le> m \<and> m < int (length arr)" using mb by simp
        show "sorted arr" by fact
        show "0 \<le> mn" by fact
        show "m - 1 < int (length arr)" using mb by simp
        show "mn \<le> m - 1" by fact
        show "\<forall>i<nat mn. arr ! i < v" by fact
        show "\<forall>i. nat (m - 1 + 1) \<le> i \<and> i < length arr \<longrightarrow> v < arr ! i"
          using above by simp
      qed
      then show ?thesis using unf True by simp
    next
      case False
      then have eq: "mn = m" using mb by simp
      have "binSearch_loop arr v mn (m - 1) m c = Inr (m, c)"
        using False by (subst binSearch_loop.simps) simp
      moreover have "probe_ok arr v (m, c)"
        using True mb above "1.prems"(5) eq
        by (simp add: probe_ok_def c_def)
      ultimately show ?thesis using unf True by simp
    qed
  next
    case nneg: False
    show ?thesis
    proof (cases "c > 0")
      case True
      then have gt: "arr ! nat m < v" by (simp add: c_def compareFunc_pos)
      have below: "\<forall>i \<le> nat m. arr ! i < v"
      proof (intro allI impI)
        fix i assume "i \<le> nat m"
        then have "arr ! i \<le> arr ! nat m"
          using "1.prems"(1) mb by (simp add: sorted_nth_mono)
        with gt show "arr ! i < v" by simp
      qed
      show ?thesis
      proof (cases "m + 1 \<le> mx")
        case le: True
        have "\<exists>r. binSearch_loop arr v (m + 1) mx m c = Inr r \<and> probe_ok arr v r"
        proof (rule "1.IH"(2)[OF "1.prems"(4) msd[symmetric] _ c_def nneg True])
          show "0 \<le> m \<and> m < int (length arr)" using mb by simp
          show "sorted arr" by fact
          show "0 \<le> m + 1" using mb by simp
          show "mx < int (length arr)" by fact
          show "m + 1 \<le> mx" by fact
          show "\<forall>i<nat (m + 1). arr ! i < v" using below mb by (simp add: nat_add_distrib)
          show "\<forall>i. nat (mx + 1) \<le> i \<and> i < length arr \<longrightarrow> v < arr ! i" by fact
        qed
        then show ?thesis using unf True nneg by simp
      next
        case False
        then have eq: "mx = m" using mb by simp
        have "binSearch_loop arr v (m + 1) mx m c = Inr (m, c)"
          using False by (subst binSearch_loop.simps) simp
        moreover have "probe_ok arr v (m, c)"
          using True mb below "1.prems"(6) eq
          by (auto simp add: probe_ok_def c_def nat_add_distrib)
        ultimately show ?thesis using unf True nneg by simp
      qed
    next
      case False
      with nneg have "c = 0" by simp
      then show ?thesis using unf mb by (simp add: probe_ok_def c_def)
    qed
  qed
qed

lemma probe_ok_absent:
  assumes "probe_ok arr v (idx, c)" "c \<noteq> 0"
  shows "v \<notin> set arr"
proof
  assume "v \<in> set arr"
  then obtain i where i: "i < length arr" "arr ! i = v"
    by (auto simp: in_set_conv_nth)
  show False
  proof (cases "c < 0")
    case True
    with assms(1) have "(\<forall>i < nat idx. arr ! i < v)"
      "(\<forall>i. nat idx \<le> i \<and> i < length arr \<longrightarrow> v < arr ! i)"
      by (auto simp: probe_ok_def)
    with i have "v < v" by (metis not_less)
    then show False by simp
  next
    case False
    with assms(2) have "c > 0" by simp
    with assms(1) have "(\<forall>i \<le> nat idx. arr ! i < v)"
      "(\<forall>i. nat idx < i \<and> i < length arr \<longrightarrow> v < arr ! i)"
      by (auto simp: probe_ok_def)
    with i have "v < v" by (metis not_less)
    then show False by simp
  qed
qed

lemma probe_ok_split:
  assumes "sorted arr" "probe_ok arr v r"
  shows "(\<forall>x \<in> set (take (insert_pos r) arr). x \<le> v) \<and>
         (\<forall>x \<in> set (drop (insert_pos r) arr). v \<le> x)"
proof -
  obtain idx c where r: "r = (idx, c)" by (cases r)
  have b: "0 \<le> idx" "idx < int (length arr)" "c = compareFunc v (arr ! nat idx)"
    using assms(2) by (auto simp: probe_ok_def r)
  have tk: "x \<in> set (take p arr) \<Longrightarrow> \<exists>i < p. i < length arr \<and> x = arr ! i" for x p
    by (auto simp: in_set_conv_nth)
  have dr: "x \<in> set (drop p arr) \<Longrightarrow> \<exists>i \<ge> p. i < length arr \<and> x = arr ! i" for x p
  proof -
    assume "x \<in> set (drop p arr)"
    then obtain j where "j < length (drop p arr)" "drop p arr ! j = x"
      by (auto simp: in_set_conv_nth)
    then have "p \<le> p + j \<and> p + j < length arr \<and> x = arr ! (p + j)"
      by auto
    then show ?thesis by blast
  qed
  consider "c < 0" | "c > 0" | "c = 0" by linarith
  then show ?thesis
  proof cases
    case 1
    with assms(2) have "(\<forall>i < nat idx. arr ! i < v)"
      "(\<forall>i. nat idx \<le> i \<and> i < length arr \<longrightarrow> v < arr ! i)"
      by (auto simp: probe_ok_def r)
    moreover have "insert_pos r = nat idx" using 1 by (simp add: insert_pos_def r)
    ultimately show ?thesis
      by (auto dest!: tk dr simp: less_imp_le)
  next
    case 2
    with assms(2) have "(\<forall>i \<le> nat idx. arr ! i < v)"
      "(\<forall>i. nat idx < i \<and> i < length arr \<longrightarrow> v < arr ! i)"
      by (auto simp: probe_ok_def r)
    moreover have "insert_pos r = Suc (nat idx)" using 2 b by (simp add: insert_pos_def r nat_add_distrib)
    ultimately show ?thesis
      by (auto dest!: tk dr simp: less_imp_le less_Suc_eq_le Suc_le_eq)
  next
    case 3
    then have eq: "arr ! nat idx = v" using b by (simp add: compareFunc_zero)
    have p: "insert_pos r = nat idx" using 3 by (simp add: insert_pos_def r)
    have "x \<le> v" if "x \<in> set (take (nat idx) arr)" for x
    proof -
      from tk[OF that] obtain i where "i < nat idx" "i < length arr" "x = arr ! i" by blast
      then have "arr ! i \<le> arr ! nat idx"
        using assms(1) b by (simp add: sorted_nth_mono)
      then show ?thesis using eq \<open>x = arr ! i\<close> by simp
    qed
    moreover have "v \<le> x" if "x \<in> set (drop (nat idx) arr)" for x
    proof -
      from dr[OF that] obtain i where "nat idx \<le> i" "i < length arr" "x = arr ! i" by blast
      then have "arr ! nat idx \<le> arr ! i"
        using assms(1) by (simp add: sorted_nth_mono)
      then show ?thesis using eq \<open>x = arr ! i\<close> by simp
    qed
    ultimately show ?thesis using p by simp
  qed
qed

lemma binSearch_sorted:
  assumes "sorted (array a)" "array a \<noteq> []"
  shows "\<exists>r. binSearch a v lock = Inr r \<and> probe_ok (array a) v r"
proof -
  have "\<exists>r. binSearch_loop (array a) v 0 (int (length (array a)) - 1) 0 (- 2) = Inr r
      \<and> probe_ok (array a) v r"
    using assms by (intro binSearch_loop_sorted) auto
  then show ?thesis using assms(2) by (simp add: binSearch_def)
qed


text \<open>
  C4: on an array that satisfies I1, \<^verbatim>\<open>Search\<close> of a value that is present returns an
  index of the value with the comparison result 0; of a value absent from a non-empty
  array it returns a comparison result other than 0; on the empty array it returns
  \<open>(-1, -2)\<close>. In no case does it panic.
\<close>

theorem Search_correct:
  assumes "I1 (array a)"
  shows "(v \<in> set (array a) \<longrightarrow>
            (\<exists>i. Search a v = Inr (i, 0) \<and> 0 \<le> i \<and> i < Len a \<and> array a ! nat i = v)) \<and>
         (v \<notin> set (array a) \<and> array a \<noteq> [] \<longrightarrow>
            (\<exists>i c. Search a v = Inr (i, c) \<and> c \<noteq> 0)) \<and>
         (array a = [] \<longrightarrow> Search a v = Inr (- 1, - 2))"
proof (cases "array a = []")
  case True
  then show ?thesis by (simp add: Search_def binSearch_def)
next
  case False
  have s: "sorted (array a)" using assms by (simp add: I1_sorted)
  from binSearch_sorted[OF s False, of v True]
  obtain idx c where r: "Search a v = Inr (idx, c)" and ok: "probe_ok (array a) v (idx, c)"
    by (auto simp: Search_def)
  have b: "0 \<le> idx" "idx < int (length (array a))" "c = compareFunc v (array a ! nat idx)"
    using ok by (auto simp: probe_ok_def)
  have "c = 0" if "v \<in> set (array a)"
    using probe_ok_absent[OF ok] that by blast
  moreover have "array a ! nat idx = v" if "c = 0"
    using that b by (simp add: compareFunc_zero)
  moreover have "c \<noteq> 0" if "v \<notin> set (array a)"
  proof
    assume "c = 0"
    then have "array a ! nat idx = v" using b by (simp add: compareFunc_zero)
    then have "v \<in> set (array a)" using b by (metis nat_less_iff nth_mem)
    with that show False by simp
  qed
  ultimately show ?thesis using r b False by (auto simp: Len_def)
qed


theorem Search_correct_witness:
  "I1 [''a'', ''b'', ''c''] \<and>
   (\<exists>i. Search \<lparr>mu = rwmutex_New [], array = [''a'', ''b'', ''c''], unique = False\<rparr> ''b''
       = Inr (i, 0)) \<and>
   (\<exists>i c. Search \<lparr>mu = rwmutex_New [], array = [''a'', ''b'', ''c''], unique = False\<rparr> ''bb''
       = Inr (i, c) \<and> c \<noteq> 0) \<and>
   Search \<lparr>mu = rwmutex_New [], array = [], unique = False\<rparr> ''b'' = Inr (- 1, - 2)"
  using
    Search_correct[of "\<lparr>mu = rwmutex_New [], array = [''a'', ''b'', ''c''], unique = False\<rparr>" "''b''"]
    Search_correct[of "\<lparr>mu = rwmutex_New [], array = [''a'', ''b'', ''c''], unique = False\<rparr>" "''bb''"]
    Search_correct[of "\<lparr>mu = rwmutex_New [], array = [], unique = False\<rparr>" "''b''"]
  by (auto simp add: compareFunc_def strings_Compare_def less_char_def)

subsection \<open>Insertion keeps the array sorted\<close>

lemma sorted_insert_at:
  assumes "sorted arr" "\<forall>x \<in> set (take p arr). x \<le> v" "\<forall>x \<in> set (drop p arr). v \<le> x"
  shows "sorted (take p arr @ [v] @ drop p arr)"
proof -
  have "sorted (take p arr @ drop p arr)" using assms(1) by simp
  then have "\<forall>x \<in> set (take p arr). \<forall>y \<in> set (drop p arr). x \<le> y"
    by (simp only: sorted_append) blast
  then show ?thesis
    using assms by (simp add: sorted_append)
qed

lemma slice_of_from: "0 \<le> i \<Longrightarrow> i \<le> int (length s) \<Longrightarrow>
   slice_of s i (int (length s)) = Inr (drop (nat i) s)"
  by (simp add: slice_of_def)

lemma slice_of_upto: "0 \<le> i \<Longrightarrow> i \<le> int (length s) \<Longrightarrow>
   slice_of s 0 i = Inr (take (nat i) s)"
  by (simp add: slice_of_def)

lemma Add_value_probe:
  assumes "binSearch a v False = Inr (idx, c)" "0 \<le> idx" "idx < int (length (array a))"
  shows "Add_value a v =
     (if unique a \<and> c = 0 then Inr a
      else Inr (a\<lparr>array := take (insert_pos (idx, c)) (array a) @ [v] @
                            drop (insert_pos (idx, c)) (array a)\<rparr>))"
proof -
  define i where "i = (if c > 0 then idx + 1 else idx)"
  have i: "0 \<le> i" "i \<le> int (length (array a))" "insert_pos (idx, c) = nat i"
    using assms(2,3) by (auto simp: i_def insert_pos_def)
  show ?thesis
    using assms i(3) slice_of_from[OF i(1,2)] slice_of_upto[OF i(1,2)]
    by (simp add: Add_value_def Let_def i_def[symmetric])
qed

text \<open>What one insertion does to a sorted array.\<close>

lemma Add_value_sorted:
  assumes "sorted (array a)"
  shows "\<exists>a'. Add_value a v = Inr a' \<and> sorted (array a') \<and> mu a' = mu a \<and> unique a' = unique a \<and>
     (if unique a \<and> v \<in> set (array a) then array a' = array a
      else mset (array a') = add_mset v (mset (array a)))"
proof (cases "array a = []")
  case True
  then show ?thesis by (simp add: Add_value_def binSearch_def)
next
  case False
  from binSearch_sorted[OF assms False, of v False]
  obtain idx c where r: "binSearch a v False = Inr (idx, c)" and ok: "probe_ok (array a) v (idx, c)"
    by auto
  have b: "0 \<le> idx" "idx < int (length (array a))" "c = compareFunc v (array a ! nat idx)"
    using ok by (auto simp: probe_ok_def)
  define p where "p = insert_pos (idx, c)"
  have srt: "sorted (take p (array a) @ [v] @ drop p (array a))"
    using probe_ok_split[OF assms ok] by (intro sorted_insert_at[OF assms]) (simp_all add: p_def)
  have ms: "mset (take p (array a) @ [v] @ drop p (array a)) = add_mset v (mset (array a))"
  proof -
    have h: "mset (take p (array a)) + mset (drop p (array a)) = mset (array a)"
      by (metis append_take_drop_id mset_append)
    show ?thesis by (simp add: h)
  qed
  have mem: "c = 0 \<longleftrightarrow> v \<in> set (array a)"
  proof
    assume "c = 0"
    then have "array a ! nat idx = v" using b by (simp add: compareFunc_zero)
    then show "v \<in> set (array a)" using b by (metis nat_less_iff nth_mem)
  next
    assume "v \<in> set (array a)"
    then show "c = 0" using probe_ok_absent[OF ok] by blast
  qed
  show ?thesis
    using srt ms mem assms by (simp add: Add_value_probe[OF r b(1,2)] p_def[symmetric])
qed

lemma Add_loop_sorted:
  assumes "sorted (array a)"
  shows "\<exists>a'. Add_loop a vs = Inr a' \<and> sorted (array a') \<and> mu a' = mu a \<and> unique a' = unique a"
  using assms
proof (induction vs arbitrary: a)
  case Nil
  then show ?case by simp
next
  case (Cons v vs)
  from Add_value_sorted[OF Cons.prems, of v]
  obtain a1 where a1: "Add_value a v = Inr a1" "sorted (array a1)" "mu a1 = mu a"
    "unique a1 = unique a" by blast
  from Cons.IH[OF a1(2)] a1 show ?case by auto
qed

lemma Add_sorted:
  assumes "sorted (array a)"
  shows "\<exists>a'. Add a vs = Inr a' \<and> sorted (array a') \<and> mu a' = mu a \<and> unique a' = unique a"
  using Add_loop_sorted[OF assms, of vs] assms by (simp add: Add_def)

lemma Add_eq_loop: "Add a vs = Add_loop a vs"
  by (cases vs) (simp_all add: Add_def)

lemma Add_calls_sorted:
  assumes "sorted (array a)"
  shows "\<exists>a'. Add_calls a calls = Inr a' \<and> sorted (array a') \<and> mu a' = mu a \<and> unique a' = unique a"
  using assms
proof (induction calls arbitrary: a)
  case Nil
  then show ?case by simp
next
  case (Cons vs calls)
  from Add_sorted[OF Cons.prems, of vs]
  obtain a1 where a1: "Add a vs = Inr a1" "sorted (array a1)" "mu a1 = mu a"
    "unique a1 = unique a" by blast
  from Cons.IH[OF a1(2)] a1 show ?case by auto
qed


text \<open>
  C3: from an array freshly made by a constructor (\<^verbatim>\<open>NewSortedStringArray\<close> is the
  constructor with capacity 0), after each call of a finite sequence of calls of
  \<^verbatim>\<open>Add\<close> (that is, after every prefix \<open>take n calls\<close> of the sequence) no call has
  panicked and the array satisfies I1, which by \<open>I1_adjacent\<close> says that the comparison
  function is at most 0 on every adjacent pair.
\<close>

theorem Add_calls_fresh_I1:
  assumes "0 \<le> cap"
  shows "\<exists>a0 a'. NewSortedStringArraySize cap unsafe = Inr a0 \<and>
     Add_calls a0 (take n calls) = Inr a' \<and> I1 (array a')"
proof -
  define a0 where "a0 = \<lparr>mu = rwmutex_New unsafe, array = [], unique = False\<rparr>"
  have new: "NewSortedStringArraySize cap unsafe = Inr a0"
    using assms by (simp add: NewSortedStringArraySize_def a0_def)
  have "sorted (array a0)" by (simp add: a0_def)
  from Add_calls_sorted[OF this, of "take n calls"] new show ?thesis
    by (auto simp: I1_sorted)
qed

theorem Add_calls_fresh_I1_witness:
  "\<exists>a0 a'. NewSortedStringArray [] = Inr a0 \<and>
     Add_calls a0 [[''b'', ''a''], [''c'']] = Inr a' \<and> I1 (array a')"
  using Add_calls_fresh_I1[of 0 "[]" 2 "[[''b'', ''a''], [''c'']]"]
  by (simp add: NewSortedStringArray_def)


subsection \<open>Insertion into a unique array\<close>

lemma Add_value_unique:
  assumes "sorted (array a)" "distinct (array a)" "unique a"
  shows "\<exists>a'. Add_value a v = Inr a' \<and> sorted (array a') \<and> distinct (array a') \<and> unique a' \<and>
     (v \<in> set (array a) \<longrightarrow> a' = a)"
proof -
  from Add_value_sorted[OF assms(1), of v]
  obtain a' where a': "Add_value a v = Inr a'" "sorted (array a')" "unique a' = unique a"
    "mu a' = mu a"
    "if unique a \<and> v \<in> set (array a) then array a' = array a
      else mset (array a') = add_mset v (mset (array a))" by blast
  have "distinct (array a')"
  proof (cases "v \<in> set (array a)")
    case True
    then show ?thesis using a'(5) assms by simp
  next
    case False
    then have "mset (array a') = mset (v # array a)" using a'(5) by simp
    then have "distinct (array a') = distinct (v # array a)"
      by (rule mset_eq_imp_distinct_iff)
    then show ?thesis using False assms by simp
  qed
  moreover have "a' = a" if "v \<in> set (array a)"
    using that a' assms by simp
  ultimately show ?thesis using a' assms by simp
qed

lemma Add_loop_unique:
  assumes "sorted (array a)" "distinct (array a)" "unique a"
  shows "\<exists>a'. Add_loop a vs = Inr a' \<and> sorted (array a') \<and> distinct (array a') \<and> unique a' \<and>
     (set vs \<subseteq> set (array a) \<longrightarrow> a' = a)"
  using assms
proof (induction vs arbitrary: a)
  case Nil
  then show ?case by simp
next
  case (Cons v vs)
  from Add_value_unique[OF Cons.prems, of v]
  obtain a1 where a1: "Add_value a v = Inr a1" "sorted (array a1)" "distinct (array a1)"
    "unique a1" "v \<in> set (array a) \<longrightarrow> a1 = a" by blast
  from Cons.IH[OF a1(2,3,4)] a1 show ?case by auto
qed

lemma Add_calls_unique:
  assumes "sorted (array a)" "distinct (array a)" "unique a"
  shows "\<exists>a'. Add_calls a calls = Inr a' \<and> sorted (array a') \<and> distinct (array a') \<and> unique a'"
  using assms
proof (induction calls arbitrary: a)
  case Nil
  then show ?case by simp
next
  case (Cons vs calls)
  from Add_loop_unique[OF Cons.prems, of vs]
  obtain a1 where a1: "Add a vs = Inr a1" "sorted (array a1)" "distinct (array a1)" "unique a1"
    by (auto simp: Add_eq_loop)
  from Cons.IH[OF a1(2,3,4)] a1 show ?case by auto
qed


text \<open>
  C7: in an array with the flag \<^verbatim>\<open>unique\<close> set that satisfies I1 and I2, after each
  call of a finite sequence of calls of \<^verbatim>\<open>Add\<close> no two adjacent elements compare
  equal (I2, see \<open>I2_adjacent\<close>), and a call of \<^verbatim>\<open>Add\<close> whose values are all present
  already returns without a panic and leaves the length unchanged.
\<close>

theorem Add_unique_I2:
  assumes "unique a" "I1 (array a)" "I2 (array a)"
  shows "(\<exists>a'. Add_calls a (take n calls) = Inr a' \<and> unique a' \<and> I1 (array a') \<and> I2 (array a')) \<and>
         (set vs \<subseteq> set (array a) \<longrightarrow> (\<exists>a'. Add a vs = Inr a' \<and> Len a' = Len a))"
proof -
  have s: "sorted (array a)" "distinct (array a)"
    using assms I1_I2_distinct by (simp_all add: I1_sorted)
  from Add_calls_unique[OF s assms(1), of "take n calls"]
  have "\<exists>a'. Add_calls a (take n calls) = Inr a' \<and> unique a' \<and> I1 (array a') \<and> I2 (array a')"
    using I1_I2_distinct by (auto simp: I1_sorted)
  moreover from Add_loop_unique[OF s assms(1), of vs]
  have "set vs \<subseteq> set (array a) \<longrightarrow> (\<exists>a'. Add a vs = Inr a' \<and> Len a' = Len a)"
    by (auto simp: Add_eq_loop)
  ultimately show ?thesis by simp
qed


theorem Add_unique_I2_witness:
  "I1 [''a'', ''b'', ''c''] \<and> I2 [''a'', ''b'', ''c''] \<and>
   (\<exists>a'. Add \<lparr>mu = rwmutex_New [], array = [''a'', ''b'', ''c''], unique = True\<rparr> [''b''] = Inr a'
      \<and> Len a' = 3)"
  using Add_unique_I2[where a = "\<lparr>mu = rwmutex_New [], array = [''a'', ''b'', ''c''], unique = True\<rparr>"
      and vs = "[''b'']"]
  by (auto simp add: compareFunc_def strings_Compare_def less_char_def Len_def)

subsection \<open>Sub-slices\<close>

lemma wrap64_id: "- (2 ^ 63) \<le> x \<Longrightarrow> x < 2 ^ 63 \<Longrightarrow> wrap64 x = x"
  by (simp add: wrap64_def)

lemma slice_of_tail:
  "0 \<le> offset \<Longrightarrow> offset \<le> int (length s) \<Longrightarrow>
     slice_of s offset (int (length s)) = Inr (drop (nat offset) s)"
  by (simp add: slice_of_def)

lemma SubSlice_unsafe:
  assumes "\<not> IsSafe (mu a)" "0 \<le> offset" "offset \<le> int (length (array a))"
  shows "SubSlice a offset sz = Inr (drop (nat offset) (array a))"
  using assms by (simp add: SubSlice_def Let_def slice_of_tail)

lemma SubSlice_safe:
  assumes "IsSafe (mu a)" "0 \<le> offset" "0 \<le> sz" "offset + sz < 2 ^ 63"
    "int (length (array a)) < 2 ^ 63"
  shows "SubSlice a offset sz = Inr (take (nat sz) (drop (nat offset) (array a)))"
proof (cases "offset > int (length (array a))")
  case True
  then show ?thesis by (simp add: SubSlice_def)
next
  case False
  define n where "n = int (length (array a))"
  define s where "s = (if offset + sz > n then n - offset else sz)"
  have w: "wrap64 (offset + sz) = offset + sz" "wrap64 (n - offset) = n - offset"
    using assms False by (simp_all add: wrap64_id n_def)
  have s: "0 \<le> s" "s \<le> n - offset" using assms False by (auto simp: s_def n_def)
  have tk: "take (nat s) (drop (nat offset) (array a)) = take (nat sz) (drop (nat offset) (array a))"
    using assms False by (auto simp: s_def n_def)
  have "copy_into (replicate (nat s) []) (drop (nat offset) (array a)) =
      take (nat s) (drop (nat offset) (array a))"
    using s assms(2) by (simp add: copy_into_def n_def)
  moreover have "SubSlice a offset sz =
      Inr (copy_into (replicate (nat s) []) (drop (nat offset) (array a)))"
    using False assms(1,2) s(1) w unfolding s_def n_def
    by (auto simp add: SubSlice_def Let_def make_strings_def slice_of_tail)
  ultimately show ?thesis using tk by simp
qed

text \<open>
  C2 fails in the unsafe mode: \<^verbatim>\<open>SubSlice\<close> clamps \<^verbatim>\<open>size\<close> and then returns
  \<^verbatim>\<open>a.array[offset:]\<close>, every element from \<open>offset\<close> on, where the safe mode copies
  \<^verbatim>\<open>size\<close> elements (\<open>SubSlice_safe\<close>, \<open>SubSlice_unsafe\<close>). On the unsafe array
  \<open>[a, b, c]\<close> the call \<^verbatim>\<open>SubSlice(0, 1)\<close> returns three elements; on the safe array
  with the same elements it returns one.
\<close>

theorem SubSlice_unsafe_ignores_size:
  "SubSlice \<lparr>mu = rwmutex_New [True], array = [''a'', ''b'', ''c''], unique = False\<rparr> 0 1
     = Inr [''a'', ''b'', ''c''] \<and>
   SubSlice \<lparr>mu = rwmutex_New [False], array = [''a'', ''b'', ''c''], unique = False\<rparr> 0 1
     = Inr [''a'']"
  by (simp add: SubSlice_def rwmutex_New_def IsSafe_def slice_of_def wrap64_def
      make_strings_def copy_into_def)

subsection \<open>Random picks\<close>

lemma Rand_loop_picks:
  assumes "\<forall>v \<in> set vs. 0 \<le> v \<and> v < int (length arr)" "int (length n) = sz" "0 \<le> i" "i < sz"
    "sz - i \<le> int (length vs)"
  shows "Rand_loop arr sz n i vs =
     Inr (take (nat i) n @ map (\<lambda>v. arr ! nat v) (take (nat (sz - i)) vs))"
  using assms
proof (induction vs arbitrary: n i)
  case Nil
  then show ?case by simp
next
  case (Cons v vs)
  have v: "index_at arr v = Inr (arr ! nat v)" using Cons.prems(1) by (simp add: index_at_def)
  have i: "nat i < length n" using Cons.prems by auto
  show ?case
  proof (cases "i = sz - 1")
    case True
    then have "nat (sz - i) = 1" by simp
    moreover have "n[nat i := arr ! nat v] = take (nat i) n @ [arr ! nat v]"
      using i True Cons.prems(2) by (simp add: upd_conv_take_nth_drop)
    ultimately show ?thesis using v Cons.prems True by simp
  next
    case False
    have "Rand_loop arr sz (n[nat i := arr ! nat v]) (i + 1) vs =
       Inr (take (nat (i + 1)) (n[nat i := arr ! nat v]) @
            map (\<lambda>v. arr ! nat v) (take (nat (sz - (i + 1))) vs))"
      using Cons.prems False by (intro Cons.IH) auto
    moreover have "take (nat (i + 1)) (n[nat i := arr ! nat v]) = take (nat i) n @ [arr ! nat v]"
      using i Cons.prems(3) by (simp add: nat_add_distrib take_Suc_conv_app_nth)
    moreover have "take (nat (sz - i)) (v # vs) = v # take (nat (sz - (i + 1))) vs"
    proof -
      have "nat (sz - i) = Suc (nat (sz - (i + 1)))" using Cons.prems False by linarith
      then show ?thesis by simp
    qed
    ultimately show ?thesis using v Cons.prems False by simp
  qed
qed

text \<open>
  For a size of at least 1 and a permutation of the indices, \<^verbatim>\<open>Rand\<close> returns the
  elements at the first \<open>min(size, len)\<close> indices of the permutation.
\<close>

lemma Rand_positive:
  assumes "1 \<le> sz" "mset perm = mset (map int [0 ..< length (array a)])"
  shows "Rand a sz perm =
     Inr (map (\<lambda>v. array a ! nat v) (take (min (nat sz) (length (array a))) perm))"
proof -
  define n where "n = length (array a)"
  have len: "length perm = n"
    using assms(2) by (metis size_mset length_map length_upt diff_zero n_def)
  have rng: "\<forall>v \<in> set perm. 0 \<le> v \<and> v < int n"
    using assms(2) by (metis (no_types, lifting) n_def set_mset_mset imageE set_map set_upt atLeastLessThan_iff
        of_nat_0_le_iff of_nat_less_iff)
  show ?thesis
  proof (cases "n = 0")
    case True
    then show ?thesis using len assms(1) by (simp add: Rand_def make_strings_def n_def)
  next
    case False
    define s where "s = (if sz > int n then int n else sz)"
    have s: "1 \<le> s" "s \<le> int n" "nat s = min (nat sz) n"
      using False assms(1) by (auto simp: s_def)
    have "Rand_loop (array a) s (replicate (nat s) []) 0 perm =
        Inr (take (nat 0) (replicate (nat s) []) @ map (\<lambda>v. array a ! nat v) (take (nat (s - 0)) perm))"
      using s rng len by (intro Rand_loop_picks) (auto simp: n_def)
    moreover have "Rand a sz perm = Rand_loop (array a) s (replicate (nat s) []) 0 perm"
      using s(1) unfolding s_def n_def by (auto simp add: Rand_def make_strings_def Let_def)
    ultimately show ?thesis using s by (simp add: n_def)
  qed
qed

text \<open>
  C5 fails for the size 0 on an array that is not empty: the result slice has length 0,
  and the first iteration of the loop assigns to its element 0 before the test of
  \<^verbatim>\<open>i == size - 1\<close>, which panics.
\<close>

theorem Rand_zero_panics:
  "Rand \<lparr>mu = rwmutex_New [], array = [''a''], unique = False\<rparr> 0 [0] = Inl IndexOutOfRange"
  by (simp add: Rand_def make_strings_def index_at_def)

subsection \<open>Removal of duplicates\<close>

text \<open>
  On an array that is not empty \<^verbatim>\<open>Unique\<close> removes the adjacent duplicates and keeps
  the first element of each run.
\<close>

lemma Unique_loop_remdups:
  assumes "i < length arr"
  shows "Unique_loop arr (int i) = Inr (take i arr @ remdups_adj (drop i arr))"
  using assms
proof (induction "2 * length arr - i" arbitrary: arr i rule: less_induct)
  case less
  note prems = less.prems
  show ?case
  proof (cases "int i = int (length arr) - 1")
    case True
    then have "drop i arr = [arr ! i]"
      using prems by (metis Cons_nth_drop_Suc drop_all le_refl of_nat_eq_iff
          add_diff_cancel_right' of_nat_Suc of_nat_1 of_nat_add diff_add_cancel Suc_eq_plus1)
    then have "take i arr @ remdups_adj (drop i arr) = arr"
      by (metis append_take_drop_id remdups_adj.simps(2))
    then show ?thesis using True by (subst Unique_loop.simps) simp
  next
    case False
    then have lt: "i + 1 < length arr" using prems by linarith
    then have d: "drop i arr = arr ! i # arr ! (i + 1) # drop (i + 2) arr"
      by (metis prems Cons_nth_drop_Suc Suc_eq_plus1 add_2_eq_Suc')
    have n1: "nat (int i + 1) = i + 1" "nat (int i + 1 + 1) = i + 2" "nat (2 + int i) = i + 2"
      "nat (1 + int i) = i + 1" "nat (int i + 2) = i + 2"
      by simp_all
    show ?thesis
    proof (cases "compareFunc (arr ! i) (arr ! (i + 1)) = 0")
      case True
      define arr' where "arr' = take (i + 1) arr @ drop (i + 2) arr"
      have unf: "Unique_loop arr (int i) = Unique_loop arr' (int i)"
        using False lt True prems
        by (subst Unique_loop.simps) (simp add: arr'_def n1 del: of_nat_add)
      have len: "i < length arr'" using lt by (simp add: arr'_def)
      have IH: "Unique_loop arr' (int i) = Inr (take i arr' @ remdups_adj (drop i arr'))"
        using lt len by (intro less.hyps) (simp_all add: arr'_def)
      have "take i arr' = take i arr" using lt by (simp add: arr'_def)
      moreover have "drop i arr' = arr ! i # drop (i + 2) arr"
        using lt prems by (simp add: arr'_def drop_take Cons_nth_drop_Suc[symmetric] min_def
             take_Suc_conv_app_nth)
      moreover have "arr ! i = arr ! (i + 1)" using True by (simp add: compareFunc_zero)
      ultimately show ?thesis using unf IH d by simp
    next
      case ne: False
      have unf: "Unique_loop arr (int i) = Unique_loop arr (int (i + 1))"
        using False lt ne prems
        by (subst Unique_loop.simps) (simp add: n1 ac_simps del: of_nat_add)
      have IH: "Unique_loop arr (int (i + 1)) = Inr (take (i + 1) arr @ remdups_adj (drop (i + 1) arr))"
        using lt by (intro less.hyps) simp_all
      have "arr ! i \<noteq> arr ! (i + 1)" using ne by (simp add: compareFunc_zero)
      moreover have "drop (i + 1) arr = arr ! (i + 1) # drop (i + 2) arr"
        using lt by (metis Cons_nth_drop_Suc Suc_eq_plus1 add_2_eq_Suc')
      moreover have "take (i + 1) arr = take i arr @ [arr ! i]"
        using prems by (simp add: take_Suc_conv_app_nth)
      ultimately show ?thesis using unf IH d by simp
    qed
  qed
qed


lemma Unique_nonempty:
  assumes "array a \<noteq> []"
  shows "Unique a = Inr (a\<lparr>array := remdups_adj (array a)\<rparr>)"
  using Unique_loop_remdups[of 0 "array a"] assms by (simp add: Unique_def)

text \<open>
  C6 fails on the empty array: the test \<^verbatim>\<open>i == len(a.array) - 1\<close> compares 0 with -1,
  the loop goes on and \<^verbatim>\<open>a.array[i]\<close> panics. The pass started by \<^verbatim>\<open>SetUnique\<close>
  panics in the same way.
\<close>

theorem Unique_empty_panics:
  "NewSortedStringArray [] = Inr \<lparr>mu = rwmutex_New [], array = [], unique = False\<rparr> \<and>
   Unique \<lparr>mu = rwmutex_New [], array = [], unique = False\<rparr> = Inl IndexOutOfRange \<and>
   SetUnique \<lparr>mu = rwmutex_New [], array = [], unique = False\<rparr> True = Inl IndexOutOfRange"
  by (simp add: SetUnique_def Unique_def NewSortedStringArray_def NewSortedStringArraySize_def
      Unique_loop.simps)

subsection \<open>Merge\<close>

lemma Lock_Unlock:
  "\<not> writer m \<Longrightarrow> readers m = 0 \<Longrightarrow> \<exists>m'. Lock m = Inr m' \<and> Unlock m' = m \<and> readers m' = 0 \<and> safe m' = safe m"
  by (simp add: Lock_def Unlock_def)

lemma RLock_RUnlock:
  "\<not> writer m \<Longrightarrow> \<exists>m'. RLock m = Inr m' \<and> RUnlock m' = m"
  by (simp add: RLock_def RUnlock_def)

lemma Merge_at_free:
  assumes "\<not> writer (mu (st p))" "readers (mu (st p)) = 0" "\<not> writer (mu (st q))"
  shows "Merge_at st p q = Inr (st(p := Merge (st p) (st q)))"
proof -
  obtain m where m: "Lock (mu (st p)) = Inr m" "Unlock m = mu (st p)"
    using Lock_Unlock[OF assms(1,2)] by blast
  show ?thesis
  proof (cases "p = q")
    case True
    then show ?thesis using m
      by (simp add: Merge_at_def Let_def Merge_def)
  next
    case False
    obtain m' where m': "RLock (mu (st q)) = Inr m'" "RUnlock m' = mu (st q)"
      using RLock_RUnlock[OF assms(3)] by blast
    have "st(p := st p\<lparr>array := sort_Strings (array (st p) @ array (st q))\<rparr>, q := st q) =
        st(p := st p\<lparr>array := sort_Strings (array (st p) @ array (st q))\<rparr>)"
      using False by (auto simp: fun_eq_iff)
    then show ?thesis using m m' False
      by (simp add: Merge_at_def Let_def Merge_def fun_upd_twist)
  qed
qed

text \<open>
  C8: \<^verbatim>\<open>Merge\<close> yields an array whose length is the sum of the two lengths, that
  satisfies I1 and that has the elements of both arrays with their multiplicities; merged
  with itself an array doubles. With the locks, on a store in which the receiver's lock is
  free and the argument is not write-locked, the call returns (no deadlock), stores the
  merged array in the receiver and leaves every lock as it was, also when the argument
  is the receiver.
\<close>

theorem Merge_correct:
  "length (array (Merge a b)) = length (array a) + length (array b) \<and>
   I1 (array (Merge a b)) \<and>
   mset (array (Merge a b)) = mset (array a) + mset (array b) \<and>
   length (array (Merge a a)) = 2 * length (array a) \<and>
   (\<not> writer (mu (st p)) \<and> readers (mu (st p)) = 0 \<and> \<not> writer (mu (st q)) \<longrightarrow>
      Merge_at st p q = Inr (st(p := Merge (st p) (st q))))"
  using Merge_at_free[of st p q]
  by (simp add: Merge_def sort_Strings_def I1_sorted)

theorem Merge_correct_witness:
  "Merge_at (\<lambda>p. \<lparr>mu = rwmutex_New [], array = [''a'', ''b''], unique = False\<rparr>) 0 0 =
     Inr ((\<lambda>p. \<lparr>mu = rwmutex_New [], array = [''a'', ''b''], unique = False\<rparr>)
       (0 := \<lparr>mu = rwmutex_New [], array = [''a'', ''a'', ''b'', ''b''], unique = False\<rparr>))"
  using Merge_correct[where st = "\<lambda>p. \<lparr>mu = rwmutex_New [], array = [''a'', ''b''], unique = False\<rparr>"
      and p = 0 and q = 0]
  by (simp add: rwmutex_New_def Merge_def sort_Strings_def less_char_def less_eq_char_def)

subsection \<open>Chunks\<close>

lemma ceiling_bounds:
  assumes "1 \<le> sz"
  shows "n \<le> \<lceil>real_of_int n / real_of_int sz\<rceil> * sz"
    and "(\<lceil>real_of_int n / real_of_int sz\<rceil> - 1) * sz < n"
proof -
  define t where "t = \<lceil>real_of_int n / real_of_int sz\<rceil>"
  have pos: "0 < real_of_int sz" using assms by simp
  have "real_of_int n / real_of_int sz \<le> real_of_int t"
    by (simp add: t_def)
  then have "real_of_int n \<le> real_of_int t * real_of_int sz"
    using pos by (simp add: divide_le_eq)
  then have "real_of_int n \<le> real_of_int (t * sz)" by simp
  then show "n \<le> \<lceil>real_of_int n / real_of_int sz\<rceil> * sz"
    unfolding t_def[symmetric] by (simp only: of_int_le_iff)
  have "real_of_int t - 1 < real_of_int n / real_of_int sz"
    unfolding t_def by linarith
  then have "(real_of_int t - 1) * real_of_int sz < real_of_int n"
    using pos by (simp add: less_divide_eq)
  then have "real_of_int ((t - 1) * sz) < real_of_int n" by simp
  then show "(\<lceil>real_of_int n / real_of_int sz\<rceil> - 1) * sz < n"
    unfolding t_def[symmetric] by (simp only: of_int_less_iff)
qed

lemma Chunk_loop_groups:
  assumes "1 \<le> sz" "0 \<le> i" "0 \<le> chunks" "n = int (length arr)"
    "0 < chunks \<longrightarrow> (i + chunks - 1) * sz < n"
  shows "Chunk_loop arr sz n i chunks acc =
     Inr (acc @ map (chunk_at arr (nat sz)) [nat i ..< nat (i + chunks)])"
  using assms
proof (induction arr sz n i chunks acc rule: Chunk_loop.induct)
  case (1 arr sz n i chunks acc)
  show ?case
  proof (cases "chunks > 0")
    case False
    then have "chunks = 0" using "1.prems" by simp
    then show ?thesis by (subst Chunk_loop.simps) simp
  next
    case True
    define hi where "hi = (if (i + 1) * sz > n then n else (i + 1) * sz)"
    have lo: "0 \<le> i * sz" using "1.prems" by simp
    have "i * sz \<le> (i + chunks - 1) * sz"
      using "1.prems" True by (intro mult_right_mono) auto
    moreover have "(i + chunks - 1) * sz < n" using "1.prems"(5) True by simp
    ultimately have lt: "i * sz < n" by (rule le_less_trans)
    have "i * sz \<le> (i + 1) * sz" using "1.prems" by (intro mult_right_mono) auto
    then have b: "i * sz \<le> hi" "hi \<le> n" using lt by (auto simp: hi_def)
    have nn: "nat (i * sz) = nat i * nat sz"
      using "1.prems" by (simp add: nat_mult_distrib)
    have len: "hi - i * sz \<le> sz" by (auto simp: hi_def algebra_simps)
    have c: "take (nat (hi - i * sz)) (drop (nat (i * sz)) arr) = chunk_at arr (nat sz) (nat i)"
    proof (cases "(i + 1) * sz > n")
      case True
      then have "hi = n" by (simp add: hi_def)
      then have "length (drop (nat (i * sz)) arr) = nat (hi - i * sz)"
        using "1.prems"(4) lo by simp
      then show ?thesis using len "1.prems"(1) by (simp add: chunk_at_def nn)
    next
      case False
      then have "hi - i * sz = sz" by (simp add: hi_def algebra_simps)
      then show ?thesis by (simp add: chunk_at_def nn)
    qed
    have sl: "slice_of arr (i * sz) hi = Inr (chunk_at arr (nat sz) (nat i))"
      using lo b "1.prems"(4) c by (simp add: slice_of_def)
    have unf: "Chunk_loop arr sz n i chunks acc =
       Chunk_loop arr sz n (i + 1) (chunks - 1) (acc @ [chunk_at arr (nat sz) (nat i)])"
      using True sl by (subst Chunk_loop.simps) (simp add: Let_def hi_def)
    have IH: "Chunk_loop arr sz n (i + 1) (chunks - 1) (acc @ [chunk_at arr (nat sz) (nat i)]) =
       Inr ((acc @ [chunk_at arr (nat sz) (nat i)]) @
          map (chunk_at arr (nat sz)) [nat (i + 1) ..< nat (i + 1 + (chunks - 1))])"
    proof (rule "1.IH"[OF True refl refl sl[unfolded hi_def]])
      show "1 \<le> sz" by fact
      show "0 \<le> i + 1" using "1.prems" by simp
      show "0 \<le> chunks - 1" using True by simp
      show "n = int (length arr)" by fact
      show "0 < chunks - 1 \<longrightarrow> (i + 1 + (chunks - 1) - 1) * sz < n"
        using "1.prems" True by simp
    qed
    have "[nat i ..< nat (i + chunks)] = nat i # [nat (i + 1) ..< nat (i + chunks)]"
      using True "1.prems" by (simp add: upt_conv_Cons nat_add_distrib)
    then show ?thesis using unf IH by simp
  qed
qed

lemma concat_chunks: "concat (map (chunk_at arr s) [0 ..< m]) = take (m * s) arr"
proof (induction m)
  case 0
  then show ?case by simp
next
  case (Suc m)
  have "take (m * s) arr @ take s (drop (m * s) arr) = take (m * s + s) arr"
    by (simp add: take_add)
  then show ?case using Suc by (simp add: chunk_at_def add.commute)
qed

lemma length_chunk_at: "length (chunk_at arr s k) = min s (length arr - k * s)"
  by (simp add: chunk_at_def min.commute)

lemma Chunk_groups:
  assumes "1 \<le> sz"
  shows "Chunk a sz = Inr (map (chunk_at (array a) (nat sz))
           [0 ..< nat \<lceil>real (length (array a)) / real_of_int sz\<rceil>])"
proof -
  define n where "n = int (length (array a))"
  define t where "t = \<lceil>real_of_int n / real_of_int sz\<rceil>"
  have "0 \<le> real_of_int n / real_of_int sz" using assms by (simp add: n_def)
  then have t0: "0 \<le> t" unfolding t_def by (simp only: zero_le_ceiling)
  have "Chunk_loop (array a) sz n 0 t [] =
      Inr ([] @ map (chunk_at (array a) (nat sz)) [nat 0 ..< nat (0 + t)])"
    using assms t0 ceiling_bounds(2)[OF assms, of n]
    by (intro Chunk_loop_groups) (simp_all add: n_def t_def)
  then show ?thesis using assms by (simp add: Chunk_def Let_def n_def t_def)
qed

text \<open>
  C9: \<^verbatim>\<open>Chunk\<close> panics exactly when \<^verbatim>\<open>size\<close> is less than 1. For a size of at
  least 1 it returns \<open>\<lceil>len / size\<rceil>\<close> groups whose concatenation is the array; every
  group but the last has exactly \<^verbatim>\<open>size\<close> elements and the last has between 1 and
  \<^verbatim>\<open>size\<close>. The example of the claim is the last conjunct.
\<close>

theorem Chunk_correct:
  "((\<exists>e. Chunk a sz = Inl e) \<longleftrightarrow> sz < 1) \<and>
   (1 \<le> sz \<longrightarrow>
     (\<exists>gs. Chunk a sz = Inr gs \<and>
        int (length gs) = \<lceil>real (length (array a)) / real_of_int sz\<rceil> \<and>
        concat gs = array a \<and>
        (\<forall>k. k + 1 < length gs \<longrightarrow> int (length (gs ! k)) = sz) \<and>
        (gs \<noteq> [] \<longrightarrow> 0 < length (last gs) \<and> int (length (last gs)) \<le> sz))) \<and>
   Chunk \<lparr>mu = m, array = [''a'', ''b'', ''c'', ''d'', ''e''], unique = u\<rparr> 2 =
     Inr [[''a'', ''b''], [''c'', ''d''], [''e'']]"
proof (intro conjI impI)
  show "(\<exists>e. Chunk a sz = Inl e) \<longleftrightarrow> sz < 1"
  proof (cases "sz < 1")
    case True
    then show ?thesis by (simp add: Chunk_def)
  next
    case False
    then show ?thesis using Chunk_groups[of sz a] by simp
  qed
next
  assume sz: "1 \<le> sz"
  define n where "n = int (length (array a))"
  define t where "t = \<lceil>real_of_int n / real_of_int sz\<rceil>"
  define s where "s = nat sz"
  define gs where "gs = map (chunk_at (array a) s) [0 ..< nat t]"
  have "0 \<le> real_of_int n / real_of_int sz" using sz by (simp add: n_def)
  then have t0: "0 \<le> t" unfolding t_def by (simp only: zero_le_ceiling)
  have up: "n \<le> t * sz" and lo: "(t - 1) * sz < n"
    using ceiling_bounds[OF sz, of n] by (simp_all add: t_def)
  have s: "int s = sz" "0 < s" using sz by (simp_all add: s_def)
  have upn: "length (array a) \<le> nat t * s"
  proof -
    have "int (length (array a)) \<le> int (nat t * s)" using up t0 s by (simp add: n_def)
    then show ?thesis by (simp only: of_nat_le_iff)
  qed
  have lon: "k * s < length (array a)" if "k < nat t" for k
  proof -
    have "int k \<le> t - 1" using that by simp
    then have "int k * sz \<le> (t - 1) * sz" using sz by (intro mult_right_mono) simp_all
    moreover have "(t - 1) * sz < int (length (array a))" using lo by (simp add: n_def)
    ultimately have "int k * sz < int (length (array a))" by (rule le_less_trans)
    moreover have "int (k * s) = int k * sz" using s by simp
    ultimately have "int (k * s) < int (length (array a))" by (simp only:)
    then show ?thesis by (simp only: of_nat_less_iff)
  qed
  have eq: "Chunk a sz = Inr gs"
    using Chunk_groups[OF sz, of a] by (simp add: gs_def t_def n_def s_def)
  have l: "int (length gs) = \<lceil>real (length (array a)) / real_of_int sz\<rceil>"
    using t0 by (simp add: gs_def t_def n_def)
  have c: "concat gs = array a"
    using upn by (simp add: gs_def concat_chunks)
  have full: "int (length (gs ! k)) = sz" if "k + 1 < length gs" for k
  proof -
    have k: "k < nat t" "k + 1 < nat t" using that by (simp_all add: gs_def)
    have "(k + 1) * s < length (array a)" using lon[OF k(2)] .
    then have "s \<le> length (array a) - k * s" by simp
    then have "length (chunk_at (array a) s k) = s" by (simp add: length_chunk_at)
    then show ?thesis using k s by (simp add: gs_def)
  qed
  have lst: "0 < length (last gs) \<and> int (length (last gs)) \<le> sz" if "gs \<noteq> []"
  proof -
    have t1: "0 < nat t" using that by (simp add: gs_def)
    then have "last gs = chunk_at (array a) s (nat t - 1)"
      by (simp add: gs_def last_map last_upt)
    moreover have "(nat t - 1) * s < length (array a)" using lon[of "nat t - 1"] t1 by simp
    ultimately show ?thesis using s by (simp add: length_chunk_at)
  qed
  show "\<exists>gs. Chunk a sz = Inr gs \<and>
        int (length gs) = \<lceil>real (length (array a)) / real_of_int sz\<rceil> \<and>
        concat gs = array a \<and>
        (\<forall>k. k + 1 < length gs \<longrightarrow> int (length (gs ! k)) = sz) \<and>
        (gs \<noteq> [] \<longrightarrow> 0 < length (last gs) \<and> int (length (last gs)) \<le> sz)"
    using eq l c full lst by blast
next
  have "\<lceil>real 5 / real_of_int 2\<rceil> = 3" by simp
  then show "Chunk \<lparr>mu = m, array = [''a'', ''b'', ''c'', ''d'', ''e''], unique = u\<rparr> 2 =
     Inr [[''a'', ''b''], [''c'', ''d''], [''e'']]"
    using Chunk_groups[of 2 "\<lparr>mu = m, array = [''a'', ''b'', ''c'', ''d'', ''e''], unique = u\<rparr>"]
    by (simp add: chunk_at_def upt_rec numeral_nat)
qed

theorem Chunk_correct_witness:
  "(1::int) \<le> 2 \<and>
   (\<exists>gs. Chunk \<lparr>mu = rwmutex_New [], array = [''a'', ''b'', ''c''], unique = False\<rparr> 2 = Inr gs \<and>
      concat gs = [''a'', ''b'', ''c''])"
  using Chunk_correct[where a = "\<lparr>mu = rwmutex_New [], array = [''a'', ''b'', ''c''], unique = False\<rparr>"
      and sz = 2 and m = "rwmutex_New []" and u = False]
  by auto

subsection \<open>Clones share no storage\<close>

lemma brk_write_at [simp]: "brk (write_at h p xs) = brk h"
  by (simp add: write_at_def)

lemma mem_write_at:
  "mem (write_at h p xs) q = (if p \<le> q \<and> q < p + length xs then xs ! (q - p) else mem h q)"
  by (simp add: write_at_def)

lemma length_elems [simp]: "length (elems h s) = s_len s"
  by (simp add: elems_def)

lemma elems_write_at:
  "length xs = s_len s \<Longrightarrow> elems (write_at h (s_base s) xs) s = xs"
  by (auto simp: elems_def mem_write_at list_eq_iff_nth_eq)


lemma frame_mono: "frame h h' R \<Longrightarrow> R \<subseteq> R' \<Longrightarrow> frame h h' R'"
  by (auto simp: frame_def)

lemma frame_trans:
  assumes "frame h h1 R" "frame h1 h2 R'" "R' \<subseteq> R \<union> {p. brk h \<le> p}"
  shows "frame h h2 R"
  unfolding frame_def
proof (intro conjI allI impI)
  show "brk h \<le> brk h2" using assms(1,2) by (simp add: frame_def)
next
  fix p assume p: "p < brk h \<and> p \<notin> R"
  then have "p \<notin> R'" using assms(3) by auto
  moreover have "p < brk h1" using p assms(1) by (simp add: frame_def)
  ultimately have "mem h2 p = mem h1 p" using assms(2) by (simp add: frame_def)
  then show "mem h2 p = mem h p" using assms(1) p by (simp add: frame_def)
qed

lemma frame_write_at:
  "{p ..< p + length xs} \<subseteq> R \<union> {q. brk h \<le> q} \<Longrightarrow> frame h (write_at h p xs) R"
  by (auto simp: frame_def mem_write_at)

lemma frame_elems:
  assumes "frame h h' R" "s_base s + s_len s \<le> brk h" "{s_base s ..< s_base s + s_len s} \<inter> R = {}"
  shows "elems h' s = elems h s"
  unfolding elems_def
proof (rule map_cong[OF refl])
  fix p assume "p \<in> set [s_base s ..< s_base s + s_len s]"
  then have "p < brk h" "p \<notin> R" using assms(2,3) by auto
  then show "mem h' p = mem h p" using assms(1) by (simp add: frame_def)
qed

lemma map_mem_write_at_same: "map (mem (write_at h p xs)) [p ..< p + length xs] = xs"
  by (rule nth_equalityI) (simp_all add: mem_write_at)

lemma map_mem_write_at_other:
  "b \<le> p \<or> p + length xs \<le> a \<Longrightarrow> map (mem (write_at h p xs)) [a ..< b] = map (mem h) [a ..< b]"
  by (rule map_cong[OF refl]) (auto simp: mem_write_at)

lemma valid_mono: "valid h s \<Longrightarrow> brk h \<le> brk h' \<Longrightarrow> valid h' s"
  by (simp add: valid_def)

lemma go_make_frame:
  assumes "go_make h n c = (h1, t)" "n \<le> c"
  shows "frame h h1 {}" "valid h1 t" "s_base t = brk h" "s_len t = n" "s_cap t = c"
    "brk h1 = brk h + c"
  using assms by (auto simp: go_make_def frame_def valid_def mem_write_at)

lemma go_append_props:
  assumes "valid h s" "go_append gr h s xs = (h', s')"
  shows "frame h h' (region s) \<and> valid h' s' \<and> owned h (region s) s' \<and>
        elems h' s' = elems h s @ xs"
proof -
  define n where "n = s_len s + length xs"
  show ?thesis
  proof (cases "n \<le> s_cap s")
    case True
    then have eq: "h' = write_at h (s_base s + s_len s) xs" "s' = s\<lparr>s_len := n\<rparr>"
      using assms(2) by (simp_all add: go_append_def n_def Let_def)
    have "frame h h' (region s)"
      unfolding eq using True by (intro frame_write_at) (auto simp: region_def n_def)
    moreover have "valid h' s'" using assms(1) True by (simp add: eq valid_def)
    moreover have "owned h (region s) s'" by (simp add: eq owned_def region_def)
    moreover have "elems h' s' = elems h s @ xs"
    proof -
      define b where "b = s_base s + s_len s"
      have sp: "[s_base s ..< b + length xs] = [s_base s ..< b] @ [b ..< b + length xs]"
        unfolding b_def by (rule upt_add_eq_append) simp
      have "elems h' s' = map (mem h') [s_base s ..< b + length xs]"
        by (simp add: eq elems_def n_def b_def add.assoc)
      also have "\<dots> = map (mem h') [s_base s ..< b] @ map (mem h') [b ..< b + length xs]"
        by (simp only: sp map_append)
      also have "map (mem h') [b ..< b + length xs] = xs"
        unfolding eq b_def[symmetric] by (rule map_mem_write_at_same)
      also have "map (mem h') [s_base s ..< b] = map (mem h) [s_base s ..< b]"
        unfolding eq b_def[symmetric] by (rule map_mem_write_at_other) simp
      finally show ?thesis by (simp add: elems_def b_def)
    qed
    ultimately show ?thesis by simp
  next
    case False
    define c where "c = max n (gr (s_cap s) n)"
    obtain h1 t where mk: "go_make h n c = (h1, t)" by (cases "go_make h n c")
    have nc: "n \<le> c" by (simp add: c_def)
    note m = go_make_frame[OF mk nc]
    have eq: "h' = write_at h1 (s_base t) (elems h s @ xs)" "s' = t"
      using assms(2) False mk by (auto simp add: go_append_def n_def[symmetric] Let_def c_def[symmetric])
    have f1: "frame h h1 (region s)" by (rule frame_mono[OF m(1)]) simp
    have f2: "frame h1 h' {p. brk h \<le> p}"
      unfolding eq using m by (intro frame_write_at) auto
    have "frame h h' (region s)"
      by (rule frame_trans[OF f1 f2]) auto
    moreover have "valid h' s'" using m(2) by (simp add: eq valid_def)
    moreover have "owned h (region s) s'" using m by (auto simp: eq owned_def region_def)
    moreover have "elems h' s' = elems h s @ xs"
      unfolding eq using m by (intro elems_write_at) (simp add: n_def)
    ultimately show ?thesis by simp
  qed
qed

lemma go_append_frame:
  assumes "valid h s" "go_append gr h s xs = (h', s')"
  shows "frame h h' (region s)" "valid h' s'" "owned h (region s) s'"
    "elems h' s' = elems h s @ xs"
  using go_append_props[OF assms] by simp_all

lemma slice_expr_valid:
  assumes "valid h s" "slice_expr s lo hi = Inr t"
  shows "valid h t" "region t \<subseteq> region s"
  using assms by (auto simp: slice_expr_def valid_def region_def split: if_splits)













lemma CloneH_props:
  assumes "valid h (arrayH a)" "CloneH h a = Inr (h1, b)"
  shows "frame h h1 {} \<and> brk h1 = brk h + s_len (arrayH a) \<and>
     arrayH b = \<lparr>s_base = brk h, s_len = s_len (arrayH a), s_cap = s_len (arrayH a)\<rparr> \<and>
     elems h1 (arrayH b) = sort_Strings (elems h (arrayH a)) \<and>
     muH b = rwmutex_New [\<not> IsSafe (muH a)] \<and> uniqueH b = False"
proof -
  define n where "n = s_len (arrayH a)"
  obtain hm arr where mk: "go_make h n n = (hm, arr)" by (cases "go_make h n n")
  note m = go_make_frame[OF mk le_refl]
  define hc where "hc = go_copy hm arr (arrayH a)"
  have res: "h1 = sort_Strings_at hc arr" "arrayH b = arr"
    "muH b = rwmutex_New [\<not> IsSafe (muH a)]" "uniqueH b = False"
    using assms(2) mk
    by (auto simp: CloneH_def NewSortedStringArrayFromH_def NewSortedStringArraySize_def
        n_def hc_def)
  have arr: "arr = \<lparr>s_base = brk h, s_len = n, s_cap = n\<rparr>"
    using m by simp
  have lim: "s_base (arrayH a) + s_len (arrayH a) \<le> brk h"
    using assms(1) by (simp add: valid_def)
  have e0: "elems hm (arrayH a) = elems h (arrayH a)"
    using m(1) lim by (rule frame_elems) simp
  have hc: "hc = write_at hm (s_base arr) (elems h (arrayH a))"
    by (simp add: hc_def go_copy_def e0 m n_def)
  have fc: "frame hm hc {p. brk h \<le> p}"
    unfolding hc using m by (intro frame_write_at) auto
  have ec: "elems hc arr = elems h (arrayH a)"
    unfolding hc using m by (intro elems_write_at) (simp add: n_def)
  have h1: "h1 = write_at hc (s_base arr) (sort_Strings (elems h (arrayH a)))"
    by (simp add: res sort_Strings_at_def ec)
  have f1: "frame hc h1 {p. brk h \<le> p}"
    unfolding h1 using m by (intro frame_write_at) auto
  have "frame h hc {}" by (rule frame_trans[OF m(1) fc]) simp
  then have "frame h h1 {}" by (rule frame_trans[OF _ f1]) simp
  moreover have "brk h1 = brk h + n" using m by (simp add: h1 hc)
  moreover have "elems h1 (arrayH b) = sort_Strings (elems h (arrayH a))"
    unfolding h1 res using m by (intro elems_write_at) (simp add: n_def sort_Strings_def)
  ultimately show ?thesis using res arr by (simp add: n_def)
qed

text \<open>
  The methods on memory compute what the methods on values compute: on an array whose
  slice lies in allocated memory they panic exactly when the methods on values panic, and
  otherwise the value of the array they leave is the value the method on values returns.
\<close>

lemma elems_slice_expr:
  assumes "slice_expr s lo hi = Inr t" "hi \<le> int (s_len s)"
  shows "elems h t = take (nat (hi - lo)) (drop (nat lo) (elems h s))"
proof -
  have b: "0 \<le> lo" "lo \<le> hi" and t: "t = \<lparr>s_base = s_base s + nat lo, s_len = nat (hi - lo),
      s_cap = s_cap s - nat lo\<rparr>"
    using assms(1) by (auto simp: slice_expr_def split: if_splits)
  have "nat lo + nat (hi - lo) \<le> s_len s" using b assms(2) by linarith
  then have "take (nat (hi - lo)) (drop (nat lo) [s_base s ..< s_base s + s_len s]) =
      [s_base s + nat lo ..< s_base s + nat lo + nat (hi - lo)]"
    by (simp add: take_upt)
  then show ?thesis
    by (simp add: elems_def t take_map drop_map del: drop_upt)
qed

lemma slice_expr_slice_of:
  assumes "s_len s \<le> s_cap s" "hi \<le> int (s_len s)"
  shows "(case slice_expr s lo hi of Inl e \<Rightarrow> slice_of (elems h s) lo hi = Inl e
          | Inr t \<Rightarrow> slice_of (elems h s) lo hi = Inr (elems h t))"
proof (cases "0 \<le> lo \<and> lo \<le> hi")
  case True
  then obtain t where t: "slice_expr s lo hi = Inr t"
    using assms by (simp add: slice_expr_def)
  show ?thesis
    using True assms(2) elems_slice_expr[OF t assms(2), of h] by (simp add: t slice_of_def)
next
  case False
  then show ?thesis by (auto simp: slice_expr_def slice_of_def)
qed

lemma array_abs_of [simp]: "array (abs_of h a) = elems h (arrayH a)"
  "unique (abs_of h a) = uniqueH a" "mu (abs_of h a) = muH a"
  by (simp_all add: abs_of_def)

lemma abs_of_update: "abs_of h' (a\<lparr>arrayH := s\<rparr>) = (abs_of h a)\<lparr>array := elems h' s\<rparr>"
  by (simp add: abs_of_def)

lemma Add_valueH_refines:
  assumes "valid h (arrayH a)"
  shows "(case Add_valueH gr h a v of
            Inl e \<Rightarrow> Add_value (abs_of h a) v = Inl e
          | Inr (h', a') \<Rightarrow> Add_value (abs_of h a) v = Inr (abs_of h' a') \<and> valid h' (arrayH a'))"
proof (cases "binSearch (abs_of h a) v False")
  case (Inl e)
  then show ?thesis by (simp add: Add_valueH_def Add_value_def)
next
  case (Inr r)
  obtain index cmp where r: "r = (index, cmp)" by (cases r)
  note bs = Inr[unfolded r]
  define xs where "xs = elems h (arrayH a)"
  have va: "s_len (arrayH a) \<le> s_cap (arrayH a)" "s_base (arrayH a) + s_cap (arrayH a) \<le> brk h"
    using assms by (simp_all add: valid_def)
  show ?thesis
  proof (cases "uniqueH a \<and> cmp = 0")
    case True
    then show ?thesis using bs assms by (simp add: Add_valueH_def Add_value_def)
  next
    case nu: False
    have nu': "(uniqueH a \<and> cmp = 0) = False" using nu by simp
    show ?thesis
    proof (cases "index < 0")
      case True
      obtain h1 arr where ap: "go_append gr h (arrayH a) [v] = (h1, arr)"
        by (cases "go_append gr h (arrayH a) [v]")
      note g = go_append_frame[OF assms ap]
      show ?thesis using bs True ap g(2,4)
        by (simp add: Add_valueH_def Add_value_def abs_of_update nu')
    next
      case False
      define i where "i = (if cmp > 0 then index + 1 else index)"
      have i0: "0 \<le> i" using False by (simp add: i_def)
      show ?thesis
      proof (cases "i \<le> int (s_len (arrayH a))")
        case out: False
        then have "slice_expr (arrayH a) i (int (s_len (arrayH a))) = Inl SliceBoundsOutOfRange"
          "slice_of xs i (int (length xs)) = Inl SliceBoundsOutOfRange"
          by (simp_all add: slice_expr_def slice_of_def xs_def)
        then show ?thesis using bs False
          by (simp add: Add_valueH_def Add_value_def Let_def i_def[symmetric] xs_def nu')
      next
        case True
        define tail where "tail = \<lparr>s_base = s_base (arrayH a) + nat i,
          s_len = nat (int (s_len (arrayH a)) - i), s_cap = s_cap (arrayH a) - nat i\<rparr>"
        define front where "front = \<lparr>s_base = s_base (arrayH a) + nat 0,
          s_len = nat (i - 0), s_cap = s_cap (arrayH a) - nat 0\<rparr>"
        have st: "slice_expr (arrayH a) i (int (s_len (arrayH a))) = Inr tail"
          using True i0 va by (simp add: slice_expr_def tail_def)
        have sf: "slice_expr (arrayH a) 0 i = Inr front"
          using True i0 va by (simp add: slice_expr_def front_def)
        have et: "elems h tail = drop (nat i) xs"
          using elems_slice_expr[OF st, of h] True by (simp add: xs_def)
        have ef: "elems h front = take (nat i) xs"
          using elems_slice_expr[OF sf, of h] True by (simp add: xs_def)
        have vt: "slice_of xs i (int (length xs)) = Inr (drop (nat i) xs)"
          using True i0 by (simp add: slice_of_def xs_def)
        have vf: "slice_of xs 0 i = Inr (take (nat i) xs)"
          using True i0 by (simp add: slice_of_def xs_def)
        define zero where "zero = \<lparr>s_base = 0, s_len = 0, s_cap = 0\<rparr>"
        obtain h1 rear where r1: "go_append gr h zero (elems h tail) = (h1, rear)"
          by (cases "go_append gr h zero (elems h tail)")
        have vz: "valid h zero" by (simp add: valid_def zero_def)
        note g1 = go_append_frame[OF vz r1]
        have ez: "elems h zero = []" by (simp add: elems_def zero_def)
        have rz: "region zero = {}" by (simp add: region_def zero_def)
        have er: "elems h1 rear = drop (nat i) xs" using g1(4) et ez by simp
        have b1: "brk h \<le> brk h1" using g1(1) by (simp add: frame_def)
        have vfr: "valid h front" using slice_expr_valid(1)[OF assms sf] .
        have rfr: "region front \<subseteq> region (arrayH a)" using slice_expr_valid(2)[OF assms sf] .
        have vfr1: "valid h1 front" using vfr b1 by (rule valid_mono)
        have ef1: "elems h1 front = take (nat i) xs"
        proof -
          have "elems h1 front = elems h front"
            using g1(1) vfr by (intro frame_elems) (auto simp: rz valid_def)
          then show ?thesis using ef by simp
        qed
        obtain h2 arr where a1: "go_append gr h1 front [v] = (h2, arr)"
          by (cases "go_append gr h1 front [v]")
        note g2 = go_append_frame[OF vfr1 a1]
        have er2: "elems h2 rear = drop (nat i) xs"
        proof -
          have "region rear \<subseteq> {p. brk h \<le> p}" using g1(3) by (simp add: owned_def rz)
          moreover have "region front \<subseteq> {p. p < brk h}"
            using rfr va by (auto simp: region_def)
          ultimately have "region rear \<inter> region front = {}" by fastforce
          moreover have "{s_base rear ..< s_base rear + s_len rear} \<subseteq> region rear"
            using g1(2) by (auto simp: region_def valid_def)
          ultimately have "{s_base rear ..< s_base rear + s_len rear} \<inter> region front = {}"
            by blast
          moreover have "s_base rear + s_len rear \<le> brk h1"
            using g1(2) by (simp add: valid_def)
          ultimately have "elems h2 rear = elems h1 rear"
            using g2(1) by (intro frame_elems)
          then show ?thesis using er by simp
        qed
        obtain h3 arr' where a2: "go_append gr h2 arr (elems h2 rear) = (h3, arr')"
          by (cases "go_append gr h2 arr (elems h2 rear)")
        note g3 = go_append_frame[OF g2(2) a2]
        have e3: "elems h3 arr' = (take (nat i) xs @ [v]) @ drop (nat i) xs"
          using g3(4) g2(4) ef1 er2 by simp
        have H: "Add_valueH gr h a v = Inr (h3, a\<lparr>arrayH := arr'\<rparr>)"
          using bs False st sf r1 a1 a2
          by (simp add: Add_valueH_def Let_def i_def[symmetric] zero_def[symmetric] nu')
        have V: "Add_value (abs_of h a) v =
            Inr ((abs_of h a)\<lparr>array := (take (nat i) xs @ [v]) @ drop (nat i) xs\<rparr>)"
          using bs False vt vf
          by (simp add: Add_value_def Let_def i_def[symmetric] xs_def[symmetric] nu')
        show ?thesis using H V e3 g3(2) by (simp add: abs_of_update)
      qed
    qed
  qed
qed


lemma Add_loopH_refines:
  assumes "valid h (arrayH a)"
  shows "(case Add_loopH gr h a vs of
            Inl e \<Rightarrow> Add_loop (abs_of h a) vs = Inl e
          | Inr (h', a') \<Rightarrow> Add_loop (abs_of h a) vs = Inr (abs_of h' a') \<and> valid h' (arrayH a'))"
  using assms
proof (induction vs arbitrary: h a)
  case Nil
  then show ?case by simp
next
  case (Cons v vs)
  show ?case
  proof (cases "Add_valueH gr h a v")
    case (Inl e)
    then show ?thesis using Add_valueH_refines[OF Cons.prems, where gr = gr and v = v] by simp
  next
    case (Inr r)
    obtain h1 a1 where r: "r = (h1, a1)" by (cases r)
    have s: "Add_value (abs_of h a) v = Inr (abs_of h1 a1)" "valid h1 (arrayH a1)"
      using Add_valueH_refines[OF Cons.prems, where gr = gr and v = v] Inr r by simp_all
    show ?thesis using Cons.IH[OF s(2)] Inr r s(1) by (auto split: sum.splits)
  qed
qed

lemma AddH_refines:
  assumes "valid h (arrayH a)"
  shows "(case AddH gr h a vs of
            Inl e \<Rightarrow> Add (abs_of h a) vs = Inl e
          | Inr (h', a') \<Rightarrow> Add (abs_of h a) vs = Inr (abs_of h' a') \<and> valid h' (arrayH a'))"
proof -
  have eq: "AddH gr h a vs = Add_loopH gr h a vs" by (cases vs) (simp_all add: AddH_def)
  show ?thesis unfolding eq Add_eq_loop by (rule Add_loopH_refines[OF assms])
qed

lemma index_at_elems:
  "index_at (elems h s) i = Inr v \<Longrightarrow> 0 \<le> i \<and> i < int (s_len s)"
  by (simp add: index_at_def split: if_splits)

lemma RemoveH_refines:
  assumes "valid h (arrayH a)"
  shows "(case RemoveH gr h a index of
            Inl e \<Rightarrow> Remove (abs_of h a) index = Inl e
          | Inr (v, h', a') \<Rightarrow>
              Remove (abs_of h a) index = Inr (v, abs_of h' a') \<and> valid h' (arrayH a'))"
proof (cases "index_at (elems h (arrayH a)) index")
  case (Inl e)
  show ?thesis
  proof (cases "index = 0")
    case True
    then show ?thesis using Inl by (simp add: RemoveH_def Remove_def Let_def)
  next
    case False
    then show ?thesis using Inl
      by (cases "index = int (s_len (arrayH a)) - 1") (simp_all add: RemoveH_def Remove_def Let_def)
  qed
next
  case (Inr v)
  define n where "n = int (s_len (arrayH a))"
  define xs where "xs = elems h (arrayH a)"
  have ib: "0 \<le> index" "index < n" using index_at_elems[OF Inr] by (simp_all add: n_def)
  have lx: "int (length xs) = n" by (simp add: xs_def n_def)
  have va: "s_len (arrayH a) \<le> s_cap (arrayH a)" using assms by (simp add: valid_def)
  have sl: "(case slice_expr (arrayH a) lo hi of Inl e \<Rightarrow> slice_of xs lo hi = Inl e
          | Inr t \<Rightarrow> slice_of xs lo hi = Inr (elems h t))" if "hi \<le> n" for lo hi
    using slice_expr_slice_of[OF va, where hi = hi and lo = lo and h = h] that
    unfolding n_def xs_def by simp
  consider "index = 0" | "index \<noteq> 0" "index = n - 1" | "index \<noteq> 0" "index \<noteq> n - 1"
    by blast
  then show ?thesis
  proof cases
    case 1
    obtain t where t: "slice_expr (arrayH a) 1 n = Inr t"
      using ib 1 va by (simp add: slice_expr_def n_def)
    have "slice_of xs 1 n = Inr (elems h t)" using sl[of n 1] t by simp
    then show ?thesis using 1 Inr t slice_expr_valid(1)[OF assms t]
      by (simp add: RemoveH_def Remove_def Let_def n_def[symmetric] xs_def[symmetric]
          abs_of_update lx)
  next
    case 2
    obtain t where t: "slice_expr (arrayH a) 0 index = Inr t"
      using ib va by (simp add: slice_expr_def n_def)
    have "slice_of xs 0 index = Inr (elems h t)" using sl[of index 0] t ib by simp
    then show ?thesis using 2 Inr t slice_expr_valid(1)[OF assms t]
      by (simp add: RemoveH_def Remove_def Let_def n_def[symmetric] xs_def[symmetric]
          abs_of_update lx)
  next
    case 3
    obtain front where f: "slice_expr (arrayH a) 0 index = Inr front"
      using ib va by (simp add: slice_expr_def n_def)
    obtain tail where t: "slice_expr (arrayH a) (index + 1) n = Inr tail"
      using ib va by (simp add: slice_expr_def n_def)
    have vf: "slice_of xs 0 index = Inr (elems h front)" using sl[of index 0] f ib by simp
    have vt: "slice_of xs (index + 1) n = Inr (elems h tail)" using sl[of n "index + 1"] t by simp
    obtain h1 arr where ap: "go_append gr h front (elems h tail) = (h1, arr)"
      by (cases "go_append gr h front (elems h tail)")
    note g = go_append_frame[OF slice_expr_valid(1)[OF assms f] ap]
    show ?thesis using 3 Inr f t vf vt ap g(2,4)
      by (simp add: RemoveH_def Remove_def Let_def n_def[symmetric] xs_def[symmetric]
          abs_of_update lx)
  qed
qed

lemma ClearH_refines: "abs_of (fst (ClearH h a)) (snd (ClearH h a)) = Clear (abs_of h a)"
  by (simp add: ClearH_def Clear_def go_make_def abs_of_def elems_def)

lemma SetArrayH_refines:
  "abs_of (fst (SetArrayH h a arr)) (snd (SetArrayH h a arr)) = SetArray (abs_of h a) (elems h arr)"
  by (simp add: SetArrayH_def SetArray_def sort_Strings_at_def abs_of_def elems_write_at
      sort_Strings_def)

lemma CloneH_refines:
  assumes "valid h (arrayH a)" "CloneH h a = Inr (hc, b)"
  shows "Clone (abs_of h a) = Inr (abs_of hc b)"
proof -
  have p: "elems hc (arrayH b) = sort_Strings (elems h (arrayH a))"
    "muH b = rwmutex_New [\<not> IsSafe (muH a)]" "uniqueH b = False"
    using CloneH_props[OF assms] by blast+
  have "copy_into (replicate (s_len (arrayH a)) []) (elems h (arrayH a)) = elems h (arrayH a)"
    by (simp add: copy_into_def)
  then show ?thesis using p
    by (simp add: Clone_def NewSortedStringArrayFrom_def NewSortedStringArraySize_def abs_of_def)
qed






end
